theory Spec2Isabelle
  imports Main
begin

section \<open>validate-light: a shallow embedding of the form validator\<close>

text \<open>
  The repository holds three generations of one form-validation library:
  \<^item> the object-prototype version (header \<^verbatim>\<open>v1.0.0\<close>, \<^verbatim>\<open>buildObj\<close>),
  \<^item> the module version \<^verbatim>\<open>v0.1.0\<close> (\<^verbatim>\<open>src/index.js\<close> and its transpiled build),
  \<^item> the transpiled module version \<^verbatim>\<open>v0.1.1\<close> (second file of \<^verbatim>\<open>build/index.js\<close>).
  The three share the text of \<^verbatim>\<open>fieldChecks\<close>, \<^verbatim>\<open>showError\<close>, \<^verbatim>\<open>hideError\<close>,
  \<^verbatim>\<open>setFieldCheck\<close> and of the per-field callback of \<^verbatim>\<open>validate\<close>; where they differ
  the definitions below branch on the generation.
\<close>

datatype generation = V1_0_0 | V0_1_0 | V0_1_1

text \<open>
  The model covers \<^verbatim>\<open>fieldChecks\<close>, \<^verbatim>\<open>showError\<close>, \<^verbatim>\<open>hideError\<close>, \<^verbatim>\<open>validate\<close>,
  \<^verbatim>\<open>setFieldCheck\<close> and the part of \<^verbatim>\<open>builder\<close> that sets up the validator's variables.
  The browser is taken as follows.
  \<^item> The resolution of the selector into forms, the submit listener and the timers'
    execution are outside the model; a pending timer is recorded, not run.
  \<^item> A function registered as a check, and every event listener, is pure: it neither
    throws nor changes the form.
  \<^item> A regular expression given to \<^verbatim>\<open>setFieldCheck\<close> has no \<^verbatim>\<open>g\<close> or \<^verbatim>\<open>y\<close> flag.
  \<^item> Class names are valid tokens and field names are valid inside the selector
    \<^verbatim>\<open>input[name="..."]\<close>, so that \<^verbatim>\<open>classList\<close> and \<^verbatim>\<open>querySelector\<close> do not throw on them.
  \<^item> \<^verbatim>\<open>Object.prototype\<close> has no enumerable property, so that the \<^verbatim>\<open>for ... in\<close> loop of
    v1.0.0, which has no \<^verbatim>\<open>hasOwnProperty\<close> guard, visits the same keys as the others.
\<close>

subsection \<open>Strings\<close>

text \<open>
  A JavaScript string is modelled as a \<^typ>\<open>string\<close> of code points below 256.
  \<^verbatim>\<open>String.prototype.trim\<close> strips white space and line terminators from both ends;
  below 256 these are TAB, LF, VT, FF, CR, SPACE and NBSP. The same set is the class
  \<^verbatim>\<open>\s\<close> of a regular expression.
\<close>

definition is_ws :: "char \<Rightarrow> bool" where
  "is_ws c = (c \<in> set [CHR 0x09, CHR 0x0A, CHR 0x0B, CHR 0x0C, CHR 0x0D, CHR 0x20, CHR 0xA0])"

definition trim :: "string \<Rightarrow> string" where
  "trim s = rev (dropWhile is_ws (rev (dropWhile is_ws s)))"

text \<open>\<^verbatim>\<open>s.split(',')\<close>: the pieces between commas; the empty string gives one empty piece.\<close>

fun split_comma :: "string \<Rightarrow> string list" where
  "split_comma [] = [[]]"
| "split_comma (c # cs) =
     (if c = CHR '','' then [] # split_comma cs
      else (case split_comma cs of
              [] \<Rightarrow> [[c]]
            | p # ps \<Rightarrow> (c # p) # ps))"

text \<open>
  Case mapping of code points below 256, as \<^verbatim>\<open>toLowerCase\<close> and \<^verbatim>\<open>toUpperCase\<close> do it:
  the letters of ASCII, and the letters \<open>0xC0 .. 0xDE\<close> (without \<open>0xD7\<close>) against
  \<open>0xE0 .. 0xFE\<close> (without \<open>0xF7\<close>). The capital of \<open>0xDF\<close> is the two letters
  \<^verbatim>\<open>SS\<close>. The capitals of \<open>0xB5\<close> and \<open>0xFF\<close> lie beyond code point 255, outside the
  strings of the model: \<open>toUpperCase\<close> is \<open>None\<close> on them.
\<close>

definition latin_lower :: string where
  "latin_lower =
     [CHR 0xE0, CHR 0xE1, CHR 0xE2, CHR 0xE3, CHR 0xE4, CHR 0xE5, CHR 0xE6, CHR 0xE7,
      CHR 0xE8, CHR 0xE9, CHR 0xEA, CHR 0xEB, CHR 0xEC, CHR 0xED, CHR 0xEE, CHR 0xEF,
      CHR 0xF0, CHR 0xF1, CHR 0xF2, CHR 0xF3, CHR 0xF4, CHR 0xF5, CHR 0xF6, CHR 0xF8,
      CHR 0xF9, CHR 0xFA, CHR 0xFB, CHR 0xFC, CHR 0xFD, CHR 0xFE]"

definition latin_upper :: string where
  "latin_upper =
     [CHR 0xC0, CHR 0xC1, CHR 0xC2, CHR 0xC3, CHR 0xC4, CHR 0xC5, CHR 0xC6, CHR 0xC7,
      CHR 0xC8, CHR 0xC9, CHR 0xCA, CHR 0xCB, CHR 0xCC, CHR 0xCD, CHR 0xCE, CHR 0xCF,
      CHR 0xD0, CHR 0xD1, CHR 0xD2, CHR 0xD3, CHR 0xD4, CHR 0xD5, CHR 0xD6, CHR 0xD8,
      CHR 0xD9, CHR 0xDA, CHR 0xDB, CHR 0xDC, CHR 0xDD, CHR 0xDE]"

definition toLowerCase :: "string \<Rightarrow> string" where
  "toLowerCase s =
     map (\<lambda>c. case map_of (zip (''ABCDEFGHIJKLMNOPQRSTUVWXYZ'' @ latin_upper)
                                (''abcdefghijklmnopqrstuvwxyz'' @ latin_lower)) c of
                 Some l \<Rightarrow> l | None \<Rightarrow> c) s"

definition upper_char :: "char \<Rightarrow> string option" where
  "upper_char c =
     (if c = CHR 0xB5 \<or> c = CHR 0xFF then None
      else if c = CHR 0xDF then Some ''SS''
      else (case map_of (zip (''abcdefghijklmnopqrstuvwxyz'' @ latin_lower)
                             (''ABCDEFGHIJKLMNOPQRSTUVWXYZ'' @ latin_upper)) c of
              Some u \<Rightarrow> Some [u] | None \<Rightarrow> Some [c]))"

fun toUpperCase :: "string \<Rightarrow> string option" where
  "toUpperCase [] = Some []"
| "toUpperCase (c # cs) =
     (case upper_char c of
        None \<Rightarrow> None
      | Some u \<Rightarrow> (case toUpperCase cs of None \<Rightarrow> None | Some us \<Rightarrow> Some (u @ us)))"

text \<open>
  The DOM converts the name given to \<^verbatim>\<open>getAttribute\<close>, \<^verbatim>\<open>hasAttribute\<close> and
  \<^verbatim>\<open>setAttribute\<close> of an HTML element to ASCII lower case.
\<close>

definition ascii_lowercase :: "string \<Rightarrow> string" where
  "ascii_lowercase s =
     map (\<lambda>c. case map_of (zip ''ABCDEFGHIJKLMNOPQRSTUVWXYZ'' ''abcdefghijklmnopqrstuvwxyz'') c of
                 Some l \<Rightarrow> l | None \<Rightarrow> c) s"

text \<open>
  The values a message slot holds: \<^verbatim>\<open>undefined\<close> (a missing \<^verbatim>\<open>dataset\<close> entry or an
  object property never written), \<^verbatim>\<open>null\<close> (\<^verbatim>\<open>getAttribute\<close> of a missing attribute)
  or a string. \<open>truthy\<close> is the test of \<^verbatim>\<open>!x\<close>; \<open>to_string\<close> is the conversion of
  string concatenation.
\<close>

datatype msgval = MUndefined | MNull | MStr string

fun truthy :: "msgval \<Rightarrow> bool" where
  "truthy MUndefined = False"
| "truthy MNull = False"
| "truthy (MStr s) = (s \<noteq> [])"

fun to_string :: "msgval \<Rightarrow> string" where
  "to_string MUndefined = ''undefined''"
| "to_string MNull = ''null''"
| "to_string (MStr s) = s"

subsection \<open>Regular expressions\<close>

text \<open>
  The two built-in patterns are anchored at both ends (\<^verbatim>\<open>^...$\<close>, no flags), so
  \<^verbatim>\<open>r.test(s)\<close> is membership of the whole string in the language of the pattern.
  The patterns are written as terms of \<open>rexp\<close> and matched by derivatives.
\<close>

datatype rexp =
    Void
  | Eps
  | Cls "char \<Rightarrow> bool"
  | Seq rexp rexp
  | Alt rexp rexp
  | Star rexp

fun nullable :: "rexp \<Rightarrow> bool" where
  "nullable Void = False"
| "nullable Eps = True"
| "nullable (Cls p) = False"
| "nullable (Seq r s) = (nullable r \<and> nullable s)"
| "nullable (Alt r s) = (nullable r \<or> nullable s)"
| "nullable (Star r) = True"

fun deriv :: "char \<Rightarrow> rexp \<Rightarrow> rexp" where
  "deriv c Void = Void"
| "deriv c Eps = Void"
| "deriv c (Cls p) = (if p c then Eps else Void)"
| "deriv c (Seq r s) =
     (if nullable r then Alt (Seq (deriv c r) s) (deriv c s) else Seq (deriv c r) s)"
| "deriv c (Alt r s) = Alt (deriv c r) (deriv c s)"
| "deriv c (Star r) = Seq (deriv c r) (Star r)"

fun matches :: "rexp \<Rightarrow> string \<Rightarrow> bool" where
  "matches r [] = nullable r"
| "matches r (c # cs) = matches (deriv c r) cs"

definition Chr :: "char \<Rightarrow> rexp" where
  "Chr c = Cls (\<lambda>d. d = c)"

definition Opt :: "rexp \<Rightarrow> rexp" where
  "Opt r = Alt Eps r"

definition Plus :: "rexp \<Rightarrow> rexp" where
  "Plus r = Seq r (Star r)"

definition is_lower :: "char \<Rightarrow> bool" where
  "is_lower c = (c \<in> set ''abcdefghijklmnopqrstuvwxyz'')"

definition is_upper :: "char \<Rightarrow> bool" where
  "is_upper c = (c \<in> set ''ABCDEFGHIJKLMNOPQRSTUVWXYZ'')"

definition is_digit :: "char \<Rightarrow> bool" where
  "is_digit c = (c \<in> set ''0123456789'')"

text \<open>\<^verbatim>\<open>/^([a-zA-Z0-9._-]+[a-zA-Z0-9]@[a-zA-Z0-9-]+\.[a-zA-Z.]{2,5})$/\<close>\<close>

definition email_re :: rexp where
  "email_re =
     (let alnum = (\<lambda>c. is_lower c \<or> is_upper c \<or> is_digit c);
          local = Cls (\<lambda>c. alnum c \<or> c \<in> set ''._-'');
          host = Cls (\<lambda>c. alnum c \<or> c = CHR ''-'');
          tld = Cls (\<lambda>c. is_lower c \<or> is_upper c \<or> c = CHR ''.'')
      in Seq (Plus local) (Seq (Cls alnum) (Seq (Chr CHR ''@'') (Seq (Plus host)
           (Seq (Chr CHR ''.'') (Seq tld (Seq tld (Seq (Opt tld) (Seq (Opt tld) (Opt tld))))))))))"

text \<open>\<^verbatim>\<open>/^\+?[0-9\.#\-\(\)\*\/\s]*$/\<close>\<close>

definition tel_re :: rexp where
  "tel_re =
     Seq (Opt (Chr CHR ''+''))
         (Star (Cls (\<lambda>c. is_digit c \<or> c \<in> set ''.#-()*/'' \<or> is_ws c)))"

subsection \<open>fieldChecks\<close>

record check_result =
  hasError :: bool
  isEmpty :: bool
  cvalue :: "string option"

text \<open>\<^verbatim>\<open>fieldChecks.empty\<close>: \<open>cvalue\<close> is the trimmed value, or \<^verbatim>\<open>null\<close> when it is empty.\<close>

definition empty :: "string \<Rightarrow> check_result" where
  "empty v =
     (let v' = trim v
      in \<lparr>hasError = False, isEmpty = (v' = []), cvalue = (if v' = [] then None else Some v')\<rparr>)"

text \<open>
  \<^verbatim>\<open>fieldChecks.regExp\<close>. The regular expression \<open>r\<close> is given by its \<^verbatim>\<open>test\<close>
  function (a pattern without the \<^verbatim>\<open>g\<close> or \<^verbatim>\<open>y\<close> flag: \<^verbatim>\<open>test\<close> keeps no state).
\<close>

definition regExp :: "string \<Rightarrow> (string \<Rightarrow> bool) \<Rightarrow> check_result" where
  "regExp v r =
     (let field = empty v
      in case cvalue field of
           None \<Rightarrow> field\<lparr>isEmpty := True, hasError := False\<rparr>
         | Some t \<Rightarrow> if \<not> r t then field\<lparr>hasError := True\<rparr> else field)"

definition email :: "string \<Rightarrow> check_result" where
  "email v = regExp v (matches email_re)"

definition tel :: "string \<Rightarrow> check_result" where
  "tel v = regExp v (matches tel_re)"

subsection \<open>The DOM, as far as the validator reads and writes it\<close>

text \<open>
  A field is one element matched by \<^verbatim>\<open>'input, textarea, select'\<close>. Elements live in a
  store and are named by address, since a \<^verbatim>\<open>NodeList\<close> holds references: \<open>attrs\<close> are
  the content attributes, under their names in lower case as an HTML document keeps
  them (among them \<^verbatim>\<open>required\<close>, \<^verbatim>\<open>name\<close> and \<^verbatim>\<open>id\<close>), \<open>dataset\<close> is the
  \<^verbatim>\<open>DOMStringMap\<close> view of the \<^verbatim>\<open>data-*\<close> attributes (the v1.0.0 generation reads the
  rule attributes through this view, the other two through \<open>attrs\<close>), \<open>group\<close> is the
  result of \<^verbatim>\<open>closest(field, formBlockSelector)\<close> (\<open>None\<close> for \<^verbatim>\<open>null\<close>), and \<open>events\<close>
  logs the events dispatched on the element, oldest first.
\<close>

datatype tag = Input | Textarea | Select

record field =
  tag :: tag
  ftype :: string
  attrs :: "(string \<times> string) list"
  dataset :: "(string \<times> string) list"
  fvalue :: string
  checked :: bool
  classList :: "string list"
  group :: "nat option"
  events :: "string list"

text \<open>
  A form group holds at most one element found by
  \<^verbatim>\<open>querySelector('.form__error-block')\<close>; form groups are not nested.
\<close>

record error_block =
  className :: "string list"
  innerHTML :: string

record params =
  validateOnBlur :: bool
  validateOnSubmit :: bool
  formBlockSelector :: string
  errorBlockClass :: string
  validClass :: string
  invalidClass :: string

definition defaultParams :: params where
  "defaultParams =
     \<lparr>validateOnBlur = True, validateOnSubmit = True, formBlockSelector = ''.form__group'',
      errorBlockClass = ''form__error-block'', validClass = ''is-valid'',
      invalidClass = ''is-invalid''\<rparr>"

type_synonym custom_check = "string \<Rightarrow> field \<Rightarrow> string list \<Rightarrow> check_result"

text \<open>
  The state of one form and of the validator built on it. \<open>dom_fields\<close> is what
  \<^verbatim>\<open>form.querySelectorAll('input, textarea, select')\<close> returns now, in document order;
  \<open>timers\<close> are the pending \<^verbatim>\<open>setTimeout\<close> callbacks of \<^verbatim>\<open>showError\<close> (each un-hides the
  error block of one group); \<open>submits\<close> counts the calls of \<^verbatim>\<open>form.submit()\<close>.
  \<open>messages\<close>, \<open>customChecks\<close> and \<open>formFields\<close> are the validator's own variables
  (\<^verbatim>\<open>form.messages\<close>, \<^verbatim>\<open>form.customChecks\<close>, \<^verbatim>\<open>form.fields\<close>; \<^verbatim>\<open>self.*\<close> in v1.0.0;
  closure variables in v0.1.1). \<open>customChecks\<close> is an association list in the order
  \<^verbatim>\<open>for (k in customChecks)\<close> enumerates the keys.
\<close>

record form_state =
  form_attrs :: "(string \<times> string) list"
  form_dataset :: "(string \<times> string) list"
  dom_fields :: "nat list"
  elems :: "nat \<Rightarrow> field"
  groups :: "nat \<Rightarrow> error_block option"
  timers :: "nat list"
  submits :: nat
  messages :: "string \<Rightarrow> msgval"
  customChecks :: "(string \<times> custom_check) list"
  formFields :: "nat list"
  options :: params

datatype error =
    MissingNameOrMethod
      \<comment> \<open>\<^verbatim>\<open>You must define a string name and a method for your new validation rule\<close>\<close>
  | InvalidMethod
      \<comment> \<open>\<^verbatim>\<open>Your new validation method is invalid\<close>\<close>
  | MissingMessage string
      \<comment> \<open>\<^verbatim>\<open>You must define an error message for your new "k" validation rule\<close>\<close>
  | TypeError
      \<comment> \<open>\<^verbatim>\<open>querySelector\<close> called on \<^verbatim>\<open>null\<close>\<close>

subsection \<open>Own-property order of the registry object\<close>

text \<open>
  \<^verbatim>\<open>customChecks[name] = f\<close> on a plain object: an existing key keeps its place;
  a new key that is an array index (the canonical decimal of a number below
  \<open>2^32 - 1\<close>) is enumerated before all other keys, in ascending order; any other new
  key comes last. Writing \<^verbatim>\<open>__proto__\<close> sets the prototype and creates no own property.
\<close>

fun decimal :: "string \<Rightarrow> int \<Rightarrow> int option" where
  "decimal [] acc = Some acc"
| "decimal (c # cs) acc =
     (case map_of (zip ''0123456789'' [0, 1, 2, 3, 4, 5, 6, 7, 8, 9]) c of
        None \<Rightarrow> None
      | Some d \<Rightarrow> decimal cs (10 * acc + d))"

definition array_index :: "string \<Rightarrow> int option" where
  "array_index k =
     (if k = [] \<or> (hd k = CHR ''0'' \<and> k \<noteq> ''0'') then None
      else (case decimal k 0 of
              None \<Rightarrow> None
            | Some n \<Rightarrow> if n < 4294967295 then Some n else None))"

fun insert_index :: "int \<Rightarrow> string \<Rightarrow> 'v \<Rightarrow> (string \<times> 'v) list \<Rightarrow> (string \<times> 'v) list" where
  "insert_index n k v [] = [(k, v)]"
| "insert_index n k v ((k', v') # kvs) =
     (case array_index k' of
        None \<Rightarrow> (k, v) # (k', v') # kvs
      | Some n' \<Rightarrow> if n < n' then (k, v) # (k', v') # kvs
                   else (k', v') # insert_index n k v kvs)"

definition obj_set :: "string \<Rightarrow> 'v \<Rightarrow> (string \<times> 'v) list \<Rightarrow> (string \<times> 'v) list" where
  "obj_set k v kvs =
     (if k = ''__proto__'' then kvs
      else if k \<in> set (map fst kvs) then map (\<lambda>(k', v'). if k' = k then (k', v) else (k', v')) kvs
      else (case array_index k of
              None \<Rightarrow> kvs @ [(k, v)]
            | Some n \<Rightarrow> insert_index n k v kvs))"

subsection \<open>setFieldCheck\<close>

text \<open>
  The arguments of \<^verbatim>\<open>setFieldCheck\<close> are arbitrary JavaScript values: a regular
  expression is given by its \<^verbatim>\<open>test\<close> function, a function by the truth value of its
  result (it is the operand of \<^verbatim>\<open>!\<close>); \<open>JObject\<close> is any other object.
\<close>

datatype jsval =
    JUndefined
  | JNull
  | JBool bool
  | JNum int
  | JStr string
  | JRegExp "string \<Rightarrow> bool"
  | JFunction "string \<Rightarrow> field \<Rightarrow> string list \<Rightarrow> bool"
  | JObject

fun typeof :: "jsval \<Rightarrow> string" where
  "typeof JUndefined = ''undefined''"
| "typeof JNull = ''object''"
| "typeof (JBool b) = ''boolean''"
| "typeof (JNum n) = ''number''"
| "typeof (JStr s) = ''string''"
| "typeof (JRegExp r) = ''object''"
| "typeof (JFunction f) = ''function''"
| "typeof JObject = ''object''"

text \<open>The two closures \<^verbatim>\<open>setFieldCheck\<close> stores, for a \<^verbatim>\<open>RegExp\<close> and for a function.\<close>

definition regExp_check :: "(string \<Rightarrow> bool) \<Rightarrow> custom_check" where
  "regExp_check r = (\<lambda>v field config. regExp v r)"

definition function_check :: "(string \<Rightarrow> field \<Rightarrow> string list \<Rightarrow> bool) \<Rightarrow> custom_check" where
  "function_check f = (\<lambda>v field config. (empty v)\<lparr>hasError := \<not> f v field config\<rparr>)"

text \<open>
  \<^verbatim>\<open>setFieldCheck(name, check)\<close>: the guard on the types of both arguments, then the
  branches \<^verbatim>\<open>check instanceof RegExp\<close>, \<^verbatim>\<open>check instanceof Function\<close> and the final
  \<^verbatim>\<open>else\<close>.
\<close>

definition setFieldCheck :: "jsval \<Rightarrow> jsval \<Rightarrow> form_state \<Rightarrow> (error + unit) \<times> form_state" where
  "setFieldCheck name check s =
     (if typeof name \<noteq> ''string'' \<or> typeof check = ''undefined''
      then (Inl MissingNameOrMethod, s)
      else (case (name, check) of
              (JStr n, JRegExp r) \<Rightarrow>
                (Inr (), s\<lparr>customChecks := obj_set n (regExp_check r) (customChecks s)\<rparr>)
            | (JStr n, JFunction f) \<Rightarrow>
                (Inr (), s\<lparr>customChecks := obj_set n (function_check f) (customChecks s)\<rparr>)
            | _ \<Rightarrow> (Inl InvalidMethod, s)))"

subsection \<open>DOM primitives\<close>

definition getAttribute :: "(string \<times> string) list \<Rightarrow> string \<Rightarrow> string option" where
  "getAttribute as n = map_of as (ascii_lowercase n)"

definition hasAttribute :: "field \<Rightarrow> string \<Rightarrow> bool" where
  "hasAttribute field n = (getAttribute (attrs field) n \<noteq> None)"

definition setAttribute :: "string \<Rightarrow> string \<Rightarrow> (string \<times> string) list \<Rightarrow> (string \<times> string) list" where
  "setAttribute n v as =
     (if ascii_lowercase n \<in> set (map fst as)
      then map (\<lambda>(k, x). if k = ascii_lowercase n then (k, v) else (k, x)) as
      else as @ [(ascii_lowercase n, v)])"

text \<open>
  The properties \<^verbatim>\<open>field.name\<close> and \<^verbatim>\<open>field.id\<close> reflect the attributes: the empty
  string when the attribute is missing.
\<close>

definition field_name :: "field \<Rightarrow> string" where
  "field_name field = (case getAttribute (attrs field) ''name'' of None \<Rightarrow> [] | Some v \<Rightarrow> v)"

definition field_id :: "field \<Rightarrow> string" where
  "field_id field = (case getAttribute (attrs field) ''id'' of None \<Rightarrow> [] | Some v \<Rightarrow> v)"

text \<open>\<^verbatim>\<open>form.getAttribute(n)\<close> and \<^verbatim>\<open>form.dataset[n]\<close>.\<close>

definition form_getAttribute :: "form_state \<Rightarrow> string \<Rightarrow> msgval" where
  "form_getAttribute s n =
     (case getAttribute (form_attrs s) n of None \<Rightarrow> MNull | Some v \<Rightarrow> MStr v)"

definition form_dataset_get :: "form_state \<Rightarrow> string \<Rightarrow> msgval" where
  "form_dataset_get s n = (case map_of (form_dataset s) n of None \<Rightarrow> MUndefined | Some v \<Rightarrow> MStr v)"

text \<open>\<^verbatim>\<open>classList.add\<close> and \<^verbatim>\<open>classList.remove\<close> of one token.\<close>

definition class_add :: "string \<Rightarrow> string list \<Rightarrow> string list" where
  "class_add c cl = (if c \<in> set cl then cl else cl @ [c])"

definition class_remove :: "string \<Rightarrow> string list \<Rightarrow> string list" where
  "class_remove c cl = removeAll c cl"

definition update_classList :: "nat \<Rightarrow> (string list \<Rightarrow> string list) \<Rightarrow> form_state \<Rightarrow> form_state" where
  "update_classList i f s = s\<lparr>elems := (elems s)(i := (elems s i)\<lparr>classList := f (classList (elems s i))\<rparr>)\<rparr>"

text \<open>
  \<^verbatim>\<open>field.dispatchEvent(new Event(n))\<close>: the event is logged on the element; listeners
  are outside the model.
\<close>

definition dispatchEvent :: "nat \<Rightarrow> string \<Rightarrow> form_state \<Rightarrow> form_state" where
  "dispatchEvent i n s = s\<lparr>elems := (elems s)(i := (elems s i)\<lparr>events := events (elems s i) @ [n]\<rparr>)\<rparr>"

definition error_event :: "generation \<Rightarrow> string" where
  "error_event gen = (case gen of V1_0_0 \<Rightarrow> ''validate-light-error'' | _ \<Rightarrow> ''validate-light:error'')"

text \<open>
  \<^verbatim>\<open>form.querySelector('input[name="' + n + '"]:checked')\<close> is not \<^verbatim>\<open>null\<close>: some
  \<^verbatim>\<open>input\<close> of the form has a \<^verbatim>\<open>name\<close> attribute with the value \<open>n\<close> and is a checked
  checkbox or radio button. An element without the attribute matches no such selector.
\<close>

definition querySelector_checked :: "form_state \<Rightarrow> string \<Rightarrow> bool" where
  "querySelector_checked s n =
     list_ex (\<lambda>j. tag (elems s j) = Input \<and> map_of (attrs (elems s j)) ''name'' = Some n
                  \<and> (ftype (elems s j) = ''checkbox'' \<or> ftype (elems s j) = ''radio'')
                  \<and> checked (elems s j)) (dom_fields s)"

subsection \<open>UI validation elements\<close>

text \<open>
  \<^verbatim>\<open>showError(field, where, msg, cssClass)\<close>. \<open>container\<close> is the argument \<^verbatim>\<open>where\<close>;
  \<^verbatim>\<open>where.querySelector\<close> on \<^verbatim>\<open>null\<close> throws. A fresh block is created hidden and a
  timer is queued that un-hides it.
\<close>

definition showError :: "field \<Rightarrow> nat option \<Rightarrow> msgval \<Rightarrow> string \<Rightarrow> form_state \<Rightarrow> (error + unit) \<times> form_state" where
  "showError field container m cssClass s =
     (case container of
        None \<Rightarrow> (Inl TypeError, s)
      | Some g \<Rightarrow>
          (let uniqueClass = (if field_id field \<noteq> [] then field_id field
                              else if field_name field \<noteq> [] then field_name field else [])
           in case groups s g of
                Some errorBlock \<Rightarrow>
                  (Inr (), s\<lparr>groups := (groups s)(g := Some
                     \<lparr>className = class_remove ''is-hidden'' (className errorBlock),
                      innerHTML = ''<span>'' @ to_string m @ ''</span>''\<rparr>)\<rparr>)
              | None \<Rightarrow>
                  (Inr (), s\<lparr>groups := (groups s)(g := Some
                     \<lparr>className = [cssClass, ''is-hidden'', cssClass @ ''--'' @ uniqueClass],
                      innerHTML = ''<span>'' @ to_string m @ ''</span>''\<rparr>),
                     timers := timers s @ [g]\<rparr>)))"

definition hideError :: "nat option \<Rightarrow> string \<Rightarrow> form_state \<Rightarrow> (error + unit) \<times> form_state" where
  "hideError errorContainer cssClass s =
     (case errorContainer of
        None \<Rightarrow> (Inl TypeError, s)
      | Some g \<Rightarrow>
          (case groups s g of
             Some errorBlock \<Rightarrow>
               (Inr (), s\<lparr>groups := (groups s)(g := Some
                  (errorBlock\<lparr>className := class_add ''is-hidden'' (className errorBlock)\<rparr>))\<rparr>)
           | None \<Rightarrow> (Inr (), s)))"

subsection \<open>validate\<close>

record rule =
  checkCondition :: bool
  validationType :: bool
  msg :: msgval

text \<open>The five literal entries of \<^verbatim>\<open>validationConfig\<close>, all computed for every field.\<close>

definition validationConfig :: "form_state \<Rightarrow> field \<Rightarrow> rule list" where
  "validationConfig s field =
     [\<lparr>checkCondition = (ftype field \<noteq> ''checkbox'' \<and> hasAttribute field ''required''),
       validationType = isEmpty (empty (fvalue field)),
       msg = messages s ''required''\<rparr>,
      \<lparr>checkCondition = (ftype field = ''email''),
       validationType = hasError (email (fvalue field)),
       msg = messages s ''email''\<rparr>,
      \<lparr>checkCondition = (ftype field = ''tel''),
       validationType = hasError (tel (fvalue field)),
       msg = messages s ''tel''\<rparr>,
      \<lparr>checkCondition = (ftype field = ''checkbox'' \<and> hasAttribute field ''required''),
       validationType = (\<not> checked field),
       msg = messages s ''required''\<rparr>,
      \<lparr>checkCondition = (ftype field = ''radio'' \<and> hasAttribute field ''required''),
       validationType = (\<not> querySelector_checked s (field_name field)),
       msg = messages s ''required''\<rparr>]"

text \<open>
  The per-field configuration of the custom rule \<open>k\<close> (\<^verbatim>\<open>dataConfig\<close>: an array, or
  \<open>None\<close> for \<^verbatim>\<open>false\<close>) and the message the form declares for it. v1.0.0 reads both
  through \<^verbatim>\<open>dataset\<close> under the capitalised name, the others through \<^verbatim>\<open>getAttribute\<close>.
\<close>

definition dataName :: "string \<Rightarrow> string option" where
  "dataName k = map_option (\<lambda>u. u @ toLowerCase (drop 1 k)) (toUpperCase (take 1 k))"

text \<open>
  \<^verbatim>\<open>el.dataset[prefix + dataName]\<close> on the view \<open>ds\<close>; no key of the model holds a letter
  beyond code point 255, so the entry is missing when \<open>dataName\<close> has one.
\<close>

definition dataset_get :: "(string \<times> string) list \<Rightarrow> string \<Rightarrow> string \<Rightarrow> string option" where
  "dataset_get ds prefix k =
     (case dataName k of None \<Rightarrow> None | Some n \<Rightarrow> map_of ds (prefix @ n))"

definition dataConfig_of :: "generation \<Rightarrow> field \<Rightarrow> string \<Rightarrow> string list option" where
  "dataConfig_of gen field k =
     (case gen of
        V1_0_0 \<Rightarrow> map_option split_comma (dataset_get (dataset field) ''validate'' k)
      | _ \<Rightarrow> map_option split_comma (getAttribute (attrs field) (''data-validate-'' @ k)))"

definition form_message :: "generation \<Rightarrow> form_state \<Rightarrow> string \<Rightarrow> msgval" where
  "form_message gen s k =
     (case gen of
        V1_0_0 \<Rightarrow> (case dataset_get (form_dataset s) ''msg'' k of
                     None \<Rightarrow> MUndefined | Some v \<Rightarrow> MStr v)
      | _ \<Rightarrow> form_getAttribute s (''data-msg-'' @ k))"

text \<open>
  The loop \<^verbatim>\<open>for (k in customChecks)\<close> over the entries still to visit: it stores the
  form's message in \<^verbatim>\<open>messages[k]\<close>, throws when that is falsy, and otherwise pushes
  one entry onto \<^verbatim>\<open>validationConfig\<close>.
\<close>

fun custom_rules :: "generation \<Rightarrow> field \<Rightarrow> (string \<times> custom_check) list \<Rightarrow> rule list \<Rightarrow> form_state \<Rightarrow> (error + rule list) \<times> form_state" where
  "custom_rules gen field [] cfg s = (Inr cfg, s)"
| "custom_rules gen field ((k, cc) # rest) cfg s =
     (let dataConfig = dataConfig_of gen field k;
          s' = s\<lparr>messages := (messages s)(k := form_message gen s k)\<rparr>
      in if \<not> truthy (messages s' k) then (Inl (MissingMessage k), s')
         else custom_rules gen field rest
                (cfg @ [\<lparr>checkCondition = (dataConfig \<noteq> None),
                         validationType =
                           (case dataConfig of
                              None \<Rightarrow> False
                            | Some c \<Rightarrow> if isEmpty (cc (fvalue field) field c) then False
                                        else hasError (cc (fvalue field) field c)),
                         msg = messages s' k\<rparr>]) s')"

text \<open>The callback of \<^verbatim>\<open>validationConfig.every\<close>, for the field at address \<open>i\<close>.\<close>

definition rule_step :: "generation \<Rightarrow> nat \<Rightarrow> rule \<Rightarrow> form_state \<Rightarrow> (error + bool) \<times> form_state" where
  "rule_step gen i el s =
     (if checkCondition el then
        (let formGroup = group (elems s i)
         in if validationType el then
              (let s1 = update_classList i (class_remove (validClass (options s))) s;
                   s2 = update_classList i (class_add (invalidClass (options s))) s1
               in case showError (elems s2 i) formGroup (msg el) ''form__error-block'' s2 of
                    (Inl e, s3) \<Rightarrow> (Inl e, s3)
                  | (Inr u, s3) \<Rightarrow> (Inr False, dispatchEvent i (error_event gen) s3))
            else
              (let s1 = update_classList i (class_remove ''is-invalid'') s;
                   s2 = (if fvalue (elems s1 i) \<noteq> [] then update_classList i (class_add ''is-valid'') s1
                         else update_classList i (class_remove ''is-valid'') s1)
               in case hideError formGroup ''form__error-block'' s2 of
                    (Inl e, s3) \<Rightarrow> (Inl e, s3)
                  | (Inr u, s3) \<Rightarrow> (Inr True, s3)))
      else (Inr True, s))"

text \<open>\<^verbatim>\<open>Array.prototype.every\<close> with a callback that reads and writes the state and may throw.\<close>

fun every :: "'a list \<Rightarrow> ('a \<Rightarrow> 's \<Rightarrow> (error + bool) \<times> 's) \<Rightarrow> 's \<Rightarrow> (error + bool) \<times> 's" where
  "every [] cb s = (Inr True, s)"
| "every (x # xs) cb s =
     (case cb x s of
        (Inl e, s') \<Rightarrow> (Inl e, s')
      | (Inr ok, s') \<Rightarrow> if ok then every xs cb s' else (Inr False, s'))"

text \<open>The callback run on each field: build the configuration, then walk it.\<close>

definition validate_field :: "generation \<Rightarrow> nat \<Rightarrow> form_state \<Rightarrow> (error + bool) \<times> form_state" where
  "validate_field gen i s =
     (case custom_rules gen (elems s i) (customChecks s) (validationConfig s (elems s i)) s of
        (Inl e, s') \<Rightarrow> (Inl e, s')
      | (Inr cfg, s') \<Rightarrow> every cfg (rule_step gen i) s')"

text \<open>
  \<^verbatim>\<open>forEachNode\<close> of v1.0.0: the callback's result \<open>True\<close> stands for the string
  \<^verbatim>\<open>"break"\<close>.
\<close>

fun forEachNode :: "'a list \<Rightarrow> ('a \<Rightarrow> 's \<Rightarrow> (error + bool) \<times> 's) \<Rightarrow> 's \<Rightarrow> (error + unit) \<times> 's" where
  "forEachNode [] todo s = (Inr (), s)"
| "forEachNode (el # rest) todo s =
     (case todo el s of
        (Inl e, s') \<Rightarrow> (Inl e, s')
      | (Inr brk, s') \<Rightarrow> if brk then (Inr (), s') else forEachNode rest todo s')"

text \<open>The callback v1.0.0 passes to \<^verbatim>\<open>forEachNode\<close>; it writes the variable \<^verbatim>\<open>result\<close>.\<close>

definition validate_todo :: "generation \<Rightarrow> nat \<Rightarrow> bool \<times> form_state \<Rightarrow> (error + bool) \<times> (bool \<times> form_state)" where
  "validate_todo gen i rs =
     (case validate_field gen i (snd rs) of
        (Inl e, s') \<Rightarrow> (Inl e, (fst rs, s'))
      | (Inr fieldResult, s') \<Rightarrow>
          if fieldResult then (Inr False, (True, s')) else (Inr True, (False, s')))"

text \<open>\<^verbatim>\<open>form.submit()\<close>; the \<^verbatim>\<open>console.log\<close> before it in v1.0.0 and v0.1.1 is not modelled.\<close>

definition submit :: "form_state \<Rightarrow> form_state" where
  "submit s = s\<lparr>submits := submits s + 1\<rparr>"

text \<open>
  \<^verbatim>\<open>validate()\<close>. v1.0.0 and v0.1.0 first store
  \<^verbatim>\<open>querySelectorAll('input, textarea, select')\<close> in \<^verbatim>\<open>formFields\<close> / \<^verbatim>\<open>form.fields\<close>;
  v0.1.1 iterates the closure variable \<^verbatim>\<open>fields\<close> that \<^verbatim>\<open>builder\<close> filled.
\<close>

definition validate :: "generation \<Rightarrow> form_state \<Rightarrow> (error + unit) \<times> form_state" where
  "validate gen s =
     (case gen of
        V1_0_0 \<Rightarrow>
          (let s0 = s\<lparr>formFields := dom_fields s\<rparr>
           in case forEachNode (formFields s0) (validate_todo gen) (True, s0) of
                (Inl e, (result, s')) \<Rightarrow> (Inl e, s')
              | (Inr u, (result, s')) \<Rightarrow> (Inr (), if result then submit s' else s'))
      | V0_1_0 \<Rightarrow>
          (let s0 = s\<lparr>formFields := dom_fields s\<rparr>
           in case every (formFields s0) (validate_field gen) s0 of
                (Inl e, s') \<Rightarrow> (Inl e, s')
              | (Inr result, s') \<Rightarrow> (Inr (), if result then submit s' else s'))
      | V0_1_1 \<Rightarrow>
          (case every (formFields s) (validate_field gen) s of
             (Inl e, s') \<Rightarrow> (Inl e, s')
           | (Inr result, s') \<Rightarrow> (Inr (), if result then submit s' else s')))"

subsection \<open>Construction\<close>

text \<open>
  \<^verbatim>\<open>builder(el, builderParams)\<close> (\<^verbatim>\<open>init\<close> in v1.0.0) on the form whose DOM part is in
  \<open>s\<close>: it sets \<^verbatim>\<open>novalidate\<close>, reads the three built-in messages and starts with an
  empty registry; v0.1.1 also queries the field list, once. \<open>builderParams\<close> is the merge
  of the default and the custom parameters.
\<close>

definition builder :: "generation \<Rightarrow> params \<Rightarrow> form_state \<Rightarrow> form_state" where
  "builder gen builderParams s =
     s\<lparr>form_attrs := setAttribute ''novalidate'' ''novalidate'' (form_attrs s),
       messages :=
         (case gen of
            V1_0_0 \<Rightarrow> (\<lambda>k. MUndefined)
              (''required'' := form_dataset_get s ''msgRequired'',
               ''email'' := form_dataset_get s ''msgEmail'',
               ''tel'' := form_dataset_get s ''msgTel'')
          | _ \<Rightarrow> (\<lambda>k. MUndefined)
              (''required'' := form_getAttribute s ''data-msg-required'',
               ''email'' := form_getAttribute s ''data-msg-email'',
               ''tel'' := form_getAttribute s ''data-msg-tel'')),
       customChecks := [],
       formFields := (case gen of V0_1_1 \<Rightarrow> dom_fields s | _ \<Rightarrow> formFields s),
       options := builderParams\<rparr>"

subsection \<open>Notions used to state the properties\<close>

text \<open>The invariant of a check result: an empty value carries no error.\<close>

definition check_result_ok :: "check_result \<Rightarrow> bool" where
  "check_result_ok r = (isEmpty r \<longrightarrow> \<not> hasError r)"

text \<open>A checker is installed when it is one of the closures \<^verbatim>\<open>setFieldCheck\<close> stores.\<close>

definition installed :: "custom_check \<Rightarrow> bool" where
  "installed cc = ((\<exists>r. cc = regExp_check r) \<or> (\<exists>f. cc = function_check f))"

text \<open>The list of fields a call of \<^verbatim>\<open>validate\<close> iterates.\<close>

definition validated_fields :: "generation \<Rightarrow> form_state \<Rightarrow> nat list" where
  "validated_fields gen s = (case gen of V0_1_1 \<Rightarrow> formFields s | _ \<Rightarrow> dom_fields s)"

text \<open>The entry the loop pushes for the custom rule \<open>k\<close>, given the message \<open>m\<close> of the form.\<close>

definition custom_rule :: "generation \<Rightarrow> field \<Rightarrow> msgval \<Rightarrow> string \<times> custom_check \<Rightarrow> rule" where
  "custom_rule gen field m kc =
     \<lparr>checkCondition = (dataConfig_of gen field (fst kc) \<noteq> None),
      validationType =
        (case dataConfig_of gen field (fst kc) of
           None \<Rightarrow> False
         | Some c \<Rightarrow> if isEmpty ((snd kc) (fvalue field) field c) then False
                     else hasError ((snd kc) (fvalue field) field c)),
      msg = m\<rparr>"

text \<open>
  The candidate list of the field at \<open>i\<close>: the five built-in entries, then one entry per
  registered rule in the order of the registry.
\<close>

definition candidates :: "generation \<Rightarrow> form_state \<Rightarrow> nat \<Rightarrow> rule list" where
  "candidates gen s i =
     validationConfig s (elems s i)
     @ map (\<lambda>kc. custom_rule gen (elems s i) (form_message gen s (fst kc)) kc) (customChecks s)"

definition failing :: "rule \<Rightarrow> bool" where
  "failing el = (checkCondition el \<and> validationType el)"

text \<open>Some rule applies to the field at \<open>i\<close>: one of its candidates has \<^verbatim>\<open>checkCondition\<close>.\<close>

definition applicable :: "generation \<Rightarrow> form_state \<Rightarrow> nat \<Rightarrow> bool" where
  "applicable gen s i = list_ex checkCondition (candidates gen s i)"

text \<open>The verdict of the callback on the field at \<open>i\<close>, run in state \<open>s\<close>.\<close>

definition outcome :: "generation \<Rightarrow> form_state \<Rightarrow> nat \<Rightarrow> error + bool" where
  "outcome gen s i = fst (validate_field gen i s)"

text \<open>
  The class list a passing rule leaves on a field with value \<open>v\<close>:
  \<^verbatim>\<open>is-invalid\<close> removed, \<^verbatim>\<open>is-valid\<close> present exactly for a non-empty value.
\<close>

definition pass_classes :: "string \<Rightarrow> string list \<Rightarrow> string list" where
  "pass_classes v cl =
     (if v \<noteq> [] then class_add ''is-valid'' (class_remove ''is-invalid'' cl)
      else class_remove ''is-valid'' (class_remove ''is-invalid'' cl))"

text \<open>
  What a walk over a rule list returns, from the flags of the rules and the field's
  form group alone.
\<close>

fun walk :: "nat option \<Rightarrow> rule list \<Rightarrow> error + bool" where
  "walk g [] = Inr True"
| "walk g (el # rest) =
     (if checkCondition el then
        (if g = None then Inl TypeError
         else if validationType el then Inr False else walk g rest)
      else walk g rest)"

text \<open>
  Two states agree on everything a verdict reads: the form, the registry, the options
  and every element up to its class list and event log.
\<close>

definition same_static :: "field \<Rightarrow> field \<Rightarrow> bool" where
  "same_static f f' =
     (tag f' = tag f \<and> ftype f' = ftype f \<and> attrs f' = attrs f \<and> dataset f' = dataset f
      \<and> fvalue f' = fvalue f \<and> checked f' = checked f \<and> group f' = group f)"

definition same_inputs :: "form_state \<Rightarrow> form_state \<Rightarrow> bool" where
  "same_inputs s s' =
     (form_attrs s' = form_attrs s \<and> form_dataset s' = form_dataset s
      \<and> dom_fields s' = dom_fields s \<and> customChecks s' = customChecks s
      \<and> options s' = options s \<and> submits s' = submits s
      \<and> (\<forall>j. same_static (elems s j) (elems s' j)))"

text \<open>
  A step from \<open>s\<close> to \<open>s'\<close> that touches the UI of the elements in \<open>I\<close> only: the
  inputs of every verdict stay, an element outside \<open>I\<close> is unchanged, and so is the
  error block of every form group that holds no element of \<open>I\<close>.
\<close>

definition ui_step :: "nat set \<Rightarrow> form_state \<Rightarrow> form_state \<Rightarrow> bool" where
  "ui_step I s s' =
     (same_inputs s s' \<and> (\<forall>j. j \<notin> I \<longrightarrow> elems s' j = elems s j)
      \<and> (\<forall>g. (\<forall>j\<in>I. group (elems s j) \<noteq> Some g) \<longrightarrow> groups s' g = groups s g))"

text \<open>
  The fields a loop with short-circuit visits: the leading ones that pass and the first
  one that does not.
\<close>

definition visited :: "('a \<Rightarrow> bool) \<Rightarrow> 'a list \<Rightarrow> 'a list" where
  "visited p xs = takeWhile p xs @ take 1 (dropWhile p xs)"

definition passes :: "generation \<Rightarrow> form_state \<Rightarrow> nat \<Rightarrow> bool" where
  "passes gen s i = (outcome gen s i = Inr True)"

text \<open>The first registered rule without a usable message on the form, if any.\<close>

definition missing_message :: "generation \<Rightarrow> form_state \<Rightarrow> (string \<times> custom_check) option" where
  "missing_message gen s = find (\<lambda>kc. \<not> truthy (form_message gen s (fst kc))) (customChecks s)"

text \<open>
  The registered rules the custom-rule loop reaches on a field: the leading ones with a
  usable message on the form and the first one without.
\<close>

definition reached :: "generation \<Rightarrow> form_state \<Rightarrow> (string \<times> custom_check) list" where
  "reached gen s = visited (\<lambda>kc. truthy (form_message gen s (fst kc))) (customChecks s)"

text \<open>A form group shows no error: it holds no error block, or a hidden one.\<close>

definition no_error_shown :: "error_block option \<Rightarrow> bool" where
  "no_error_shown b = (case b of None \<Rightarrow> True | Some e \<Rightarrow> ''is-hidden'' \<in> set (className e))"

text \<open>The two flags of a rule; a walk reads nothing else of it.\<close>

definition flags :: "rule \<Rightarrow> bool \<times> bool" where
  "flags el = (checkCondition el, validationType el)"

text \<open>The state after the first statement of \<^verbatim>\<open>validate\<close>.\<close>

definition query_fields :: "generation \<Rightarrow> form_state \<Rightarrow> form_state" where
  "query_fields gen s = (case gen of V0_1_1 \<Rightarrow> s | _ \<Rightarrow> s\<lparr>formFields := dom_fields s\<rparr>)"

subsection \<open>Example forms\<close>

text \<open>A text input without attributes, inside form group 0, and a form without fields.\<close>

definition text_input :: field where
  "text_input =
     \<lparr>tag = Input, ftype = ''text'', attrs = [], dataset = [], fvalue = [], checked = False,
      classList = [], group = Some 0, events = []\<rparr>"

definition bare_form :: form_state where
  "bare_form =
     \<lparr>form_attrs = [], form_dataset = [], dom_fields = [], elems = (\<lambda>i. text_input),
      groups = (\<lambda>g. None), timers = [], submits = 0, messages = (\<lambda>k. MUndefined),
      customChecks = [], formFields = [], options = defaultParams\<rparr>"

text \<open>A required text input with value \<open>v\<close> in form group \<open>g\<close>.\<close>

definition required_input :: "string \<Rightarrow> nat \<Rightarrow> field" where
  "required_input v g = text_input\<lparr>attrs := [(''required'', [])], fvalue := v, group := Some g\<rparr>"

text \<open>
  Three required text inputs, each in its own form group: the first holds \<^verbatim>\<open>x\<close>, the
  other two are empty. The group of the first shows an error block from an earlier call.
\<close>

definition three_fields :: form_state where
  "three_fields =
     bare_form\<lparr>form_attrs := [(''data-msg-required'', ''Required'')],
               dom_fields := [0, 1, 2],
               elems := (\<lambda>i. if i = 0 then required_input ''x'' 0 else required_input [] i),
               groups := (\<lambda>g. None)
                 (0 := Some \<lparr>className = [''form__error-block'', ''form__error-block--''],
                              innerHTML = ''<span>Required</span>''\<rparr>),
               messages := (\<lambda>k. MUndefined)(''required'' := MStr ''Required'')\<rparr>"

text \<open>A form whose only field is a plain text input holding \<^verbatim>\<open>abc\<close>.\<close>

definition one_plain_input :: form_state where
  "one_plain_input = bare_form\<lparr>dom_fields := [0], elems := (\<lambda>i. text_input\<lparr>fvalue := ''abc''\<rparr>)\<rparr>"

text \<open>
  The form of the scenario: field 0 is \<^verbatim>\<open>type=email required data-validate-foo="x"\<close>
  with an empty value; field 1 is a text input holding \<^verbatim>\<open>abc\<close> that carries
  \<^verbatim>\<open>data-validate-foo\<close> too, in a form group of its own. The form declares messages for
  \<^verbatim>\<open>required\<close> and \<^verbatim>\<open>foo\<close>; the rule \<^verbatim>\<open>foo\<close>, a function that rejects every value, is
  registered after construction.
\<close>

definition email_foo_dom :: form_state where
  "email_foo_dom =
     bare_form\<lparr>form_attrs := [(''data-msg-required'', ''Required''), (''data-msg-foo'', ''Foo'')],
               form_dataset := [(''msgRequired'', ''Required''), (''msgFoo'', ''Foo'')],
               dom_fields := [0, 1],
               elems := (\<lambda>i. if i = 0
                               then text_input\<lparr>ftype := ''email'',
                                      attrs := [(''required'', []), (''data-validate-foo'', ''x'')],
                                      dataset := [(''validateFoo'', ''x'')]\<rparr>
                               else text_input\<lparr>fvalue := ''abc'',
                                      attrs := [(''data-validate-foo'', ''x'')],
                                      dataset := [(''validateFoo'', ''x'')],
                                      group := Some 1\<rparr>)\<rparr>"

definition email_foo_form :: "generation \<Rightarrow> form_state" where
  "email_foo_form gen =
     snd (setFieldCheck (JStr ''foo'') (JFunction (\<lambda>v field config. False))
            (builder gen defaultParams email_foo_dom))"

text \<open>The same form and rule, where the form declares no message for \<^verbatim>\<open>foo\<close>.\<close>

definition messageless_rule_form :: form_state where
  "messageless_rule_form =
     snd (setFieldCheck (JStr ''foo'') (JFunction (\<lambda>v field config. False))
            (builder V0_1_0 defaultParams
               (email_foo_dom\<lparr>form_attrs := [(''data-msg-required'', ''Required'')]\<rparr>)))"

text \<open>
  An optional \<^verbatim>\<open>type=tel\<close> field holding two spaces, with the rule \<^verbatim>\<open>foo\<close> active on it;
  the function registered for \<^verbatim>\<open>foo\<close> rejects every value.
\<close>

definition optional_tel_form :: form_state where
  "optional_tel_form =
     snd (setFieldCheck (JStr ''foo'') (JFunction (\<lambda>v field config. False))
            (builder V0_1_0 defaultParams
               (email_foo_dom\<lparr>dom_fields := [0],
                              elems := (\<lambda>i. text_input\<lparr>ftype := ''tel'', fvalue := ''  '',
                                          attrs := [(''data-validate-foo'', ''x'')]\<rparr>)\<rparr>)))"

text \<open>The same field outside every form group: \<^verbatim>\<open>closest\<close> returns \<^verbatim>\<open>null\<close>.\<close>

definition ungrouped_tel_form :: form_state where
  "ungrouped_tel_form =
     optional_tel_form\<lparr>elems := (\<lambda>i. (elems optional_tel_form i)\<lparr>group := None\<rparr>)\<rparr>"

text \<open>
  The rule \<^verbatim>\<open>foo\<close> is registered, the form declares no message for it, and the only
  field is a plain text input that does not carry \<^verbatim>\<open>data-validate-foo\<close>.
\<close>

definition unused_rule_form :: form_state where
  "unused_rule_form =
     snd (setFieldCheck (JStr ''foo'') (JRegExp (matches tel_re))
            (builder V0_1_0 defaultParams (bare_form\<lparr>dom_fields := [0]\<rparr>)))"

text \<open>
  A validator built on a form without fields, to which a required, empty text input is
  added afterwards.
\<close>

definition late_field_form :: "generation \<Rightarrow> form_state" where
  "late_field_form gen =
     (builder gen defaultParams
        (bare_form\<lparr>form_attrs := [(''data-msg-required'', ''Required'')],
                   form_dataset := [(''msgRequired'', ''Required'')]\<rparr>))
       \<lparr>dom_fields := [0], elems := (\<lambda>i. required_input [] 0)\<rparr>"

section \<open>Properties\<close>

subsection \<open>Check results\<close>

lemma empty_ok: "check_result_ok (empty v)"
  by (simp add: check_result_ok_def empty_def Let_def)

lemma regExp_ok: "check_result_ok (regExp v r)"
  by (simp add: check_result_ok_def regExp_def empty_def Let_def split: option.splits)

lemma set_insert_index: "set (insert_index n k v kvs) = insert (k, v) (set kvs)"
  by (induction kvs) (auto split: option.splits if_splits)

lemma set_obj_set: "set (obj_set k v kvs) \<subseteq> insert (k, v) (set kvs)"
  by (auto simp: obj_set_def set_insert_index split: option.splits if_splits)

text \<open>
  Claim C3, as amended. The results of \<^verbatim>\<open>empty\<close>, \<^verbatim>\<open>regExp\<close>, \<^verbatim>\<open>email\<close> and \<^verbatim>\<open>tel\<close>, and
  of every checker that \<^verbatim>\<open>setFieldCheck\<close> installs for a regular expression, satisfy
  ``\<open>isEmpty\<close> implies not \<open>hasError\<close>''. The checker installed for a function breaks
  the invariant exactly when the trimmed value is empty and the function rejects it.
\<close>

theorem check_result_invariant:
  "check_result_ok (empty v) \<and> check_result_ok (regExp v r) \<and> check_result_ok (email v)
   \<and> check_result_ok (tel v)
   \<and> (setFieldCheck (JStr n) (JRegExp r) s = (Inr (), s') \<longrightarrow>
        (\<forall>kc \<in> set (customChecks s').
            kc \<in> set (customChecks s) \<or> check_result_ok (snd kc v field config)))
   \<and> (isEmpty (function_check f v field config) \<and> hasError (function_check f v field config)
        \<longleftrightarrow> trim v = [] \<and> \<not> f v field config)"
proof -
  have a: "setFieldCheck (JStr n) (JRegExp r) s = (Inr (), s') \<longrightarrow>
        (\<forall>kc \<in> set (customChecks s').
            kc \<in> set (customChecks s) \<or> check_result_ok (snd kc v field config))"
  proof (intro impI ballI)
    fix kc
    assume h: "setFieldCheck (JStr n) (JRegExp r) s = (Inr (), s')"
      and m: "kc \<in> set (customChecks s')"
    from h have "customChecks s' = obj_set n (regExp_check r) (customChecks s)"
      by (auto simp: setFieldCheck_def)
    with m set_obj_set[of n "regExp_check r" "customChecks s"]
    have "kc = (n, regExp_check r) \<or> kc \<in> set (customChecks s)" by auto
    then show "kc \<in> set (customChecks s) \<or> check_result_ok (snd kc v field config)"
      by (auto simp: regExp_check_def regExp_ok)
  qed
  have b: "(isEmpty (function_check f v field config) \<and> hasError (function_check f v field config)
        \<longleftrightarrow> trim v = [] \<and> \<not> f v field config)"
    by (simp add: function_check_def empty_def Let_def)
  show ?thesis using a b by (simp add: empty_ok regExp_ok email_def tel_def)
qed

text \<open>
  At the rule \<^verbatim>\<open>foo\<close> registered with the pattern of \<^verbatim>\<open>tel\<close>, on a value of two spaces:
  the installed checker reports the value empty and without error.
\<close>

theorem check_result_invariant_witness:
  "setFieldCheck (JStr ''foo'') (JRegExp (matches tel_re)) bare_form
     = (Inr (), bare_form\<lparr>customChecks := [(''foo'', regExp_check (matches tel_re))]\<rparr>)
   \<and> isEmpty (regExp_check (matches tel_re) ''  '' text_input [])
   \<and> \<not> hasError (regExp_check (matches tel_re) ''  '' text_input [])"
proof -
  have e: "setFieldCheck (JStr ''foo'') (JRegExp (matches tel_re)) bare_form
     = (Inr (), bare_form\<lparr>customChecks := [(''foo'', regExp_check (matches tel_re))]\<rparr>)"
    by (simp add: setFieldCheck_def bare_form_def obj_set_def array_index_def)
  have i: "isEmpty (regExp_check (matches tel_re) ''  '' text_input [])"
    by (simp add: regExp_check_def regExp_def empty_def trim_def is_ws_def)
  from check_result_invariant[of "''  ''" "matches tel_re" "''foo''" bare_form
      "bare_form\<lparr>customChecks := [(''foo'', regExp_check (matches tel_re))]\<rparr>" text_input "[]"] e
  have "check_result_ok (regExp_check (matches tel_re) ''  '' text_input [])"
    by (simp add: bare_form_def)
  with i e show ?thesis by (simp add: check_result_ok_def)
qed

text \<open>
  Claim C3 as stated fails: the checker installed for the function that rejects every
  value returns, on the empty value, a result that is both empty and in error.
\<close>

theorem function_check_counterexample:
  "\<not> check_result_ok
       (snd (last (customChecks
          (snd (setFieldCheck (JStr ''foo'') (JFunction (\<lambda>v field config. False)) bare_form))))
          [] text_input [])"
  by (simp add: setFieldCheck_def bare_form_def obj_set_def array_index_def function_check_def
      check_result_ok_def empty_def trim_def)

subsection \<open>Registration\<close>

text \<open>
  Claim C7, as amended. \<^verbatim>\<open>setFieldCheck(name, check)\<close> returns normally exactly when
  \<open>name\<close> is a string (of any length) and \<open>check\<close> is a regular expression or a
  function; otherwise it throws, at once, and leaves the state as it was.
\<close>

theorem setFieldCheck_outcome:
  "(fst (setFieldCheck name check s) = Inr ())
     = ((\<exists>n. name = JStr n) \<and> ((\<exists>r. check = JRegExp r) \<or> (\<exists>f. check = JFunction f)))
   \<and> (fst (setFieldCheck name check s) = Inr () \<or> snd (setFieldCheck name check s) = s)"
  by (cases name; cases check) (simp_all add: setFieldCheck_def)

text \<open>
  Registering \<^verbatim>\<open>foo\<close> with a regular expression succeeds; a number as name and
  \<^verbatim>\<open>null\<close> as check are refused with the two errors of the source.
\<close>

theorem setFieldCheck_outcome_witness:
  "fst (setFieldCheck (JStr ''foo'') (JRegExp (matches tel_re)) bare_form) = Inr ()
   \<and> fst (setFieldCheck (JNum 3) (JRegExp (matches tel_re)) bare_form) = Inl MissingNameOrMethod
   \<and> fst (setFieldCheck (JStr ''foo'') JNull bare_form) = Inl InvalidMethod"
proof -
  have a: "fst (setFieldCheck (JStr ''foo'') (JRegExp (matches tel_re)) bare_form) = Inr ()"
    using setFieldCheck_outcome[of "JStr ''foo''" "JRegExp (matches tel_re)" bare_form] by blast
  have b: "fst (setFieldCheck (JNum 3) (JRegExp (matches tel_re)) bare_form) = Inl MissingNameOrMethod"
    by (simp add: setFieldCheck_def)
  have c: "fst (setFieldCheck (JStr ''foo'') JNull bare_form) = Inl InvalidMethod"
    by (simp add: setFieldCheck_def)
  show ?thesis using a b c by blast
qed

text \<open>
  Claim C7 as stated fails: the empty string is not a non-empty string, and
  \<^verbatim>\<open>setFieldCheck('', /.../)\<close> does not throw.
\<close>

theorem empty_name_counterexample:
  "fst (setFieldCheck (JStr []) (JRegExp (\<lambda>v. True)) bare_form) = Inr ()"
  by (simp add: setFieldCheck_def)

subsection \<open>The custom-rule loop\<close>

lemma same_static_refl: "same_static f f"
  by (simp add: same_static_def)

lemma same_static_trans: "same_static f g \<Longrightarrow> same_static g h \<Longrightarrow> same_static f h"
  by (simp add: same_static_def)

lemma same_inputs_refl: "same_inputs s s"
  by (simp add: same_inputs_def same_static_refl)

lemma same_inputs_trans: "same_inputs s t \<Longrightarrow> same_inputs t u \<Longrightarrow> same_inputs s u"
  unfolding same_inputs_def by (auto intro: same_static_trans)

lemma form_message_messages [simp]: "form_message gen (s\<lparr>messages := m\<rparr>) k = form_message gen s k"
  by (simp add: form_message_def form_getAttribute_def split: generation.splits)

lemma custom_rules_Cons:
  "custom_rules gen f ((k, cc) # rest) cfg s =
     (if \<not> truthy (form_message gen s k)
      then (Inl (MissingMessage k), s\<lparr>messages := (messages s)(k := form_message gen s k)\<rparr>)
      else custom_rules gen f rest (cfg @ [custom_rule gen f (form_message gen s k) (k, cc)])
             (s\<lparr>messages := (messages s)(k := form_message gen s k)\<rparr>))"
  by (simp add: Let_def custom_rule_def split: option.splits)

declare custom_rules.simps(2) [simp del]

lemma custom_rules_state: "\<exists>m. snd (custom_rules gen f kcs cfg s) = s\<lparr>messages := m\<rparr>"
proof (induction kcs arbitrary: cfg s)
  case Nil
  have "s = s\<lparr>messages := messages s\<rparr>" by simp
  then show ?case by (metis custom_rules.simps(1) snd_conv)
next
  case (Cons kc kcs)
  obtain k cc where kc: "kc = (k, cc)" by (cases kc)
  show ?case
  proof (cases "truthy (form_message gen s k)")
    case False
    then show ?thesis by (auto simp: kc custom_rules_Cons)
  next
    case True
    let ?s1 = "s\<lparr>messages := (messages s)(k := form_message gen s k)\<rparr>"
    let ?cfg1 = "cfg @ [custom_rule gen f (form_message gen s k) (k, cc)]"
    have step: "custom_rules gen f (kc # kcs) cfg s = custom_rules gen f kcs ?cfg1 ?s1"
      using True by (simp add: kc custom_rules_Cons)
    from Cons.IH[of ?cfg1 ?s1] obtain m where "snd (custom_rules gen f kcs ?cfg1 ?s1) = ?s1\<lparr>messages := m\<rparr>"
      by blast
    then have "snd (custom_rules gen f (kc # kcs) cfg s) = s\<lparr>messages := m\<rparr>"
      using step by simp
    then show ?thesis by blast
  qed
qed

lemma custom_rules_fst:
  "fst (custom_rules gen f kcs cfg s)
     = (case find (\<lambda>kc. \<not> truthy (form_message gen s (fst kc))) kcs of
          Some kc \<Rightarrow> Inl (MissingMessage (fst kc))
        | None \<Rightarrow> Inr (cfg @ map (\<lambda>kc. custom_rule gen f (form_message gen s (fst kc)) kc) kcs))"
proof (induction kcs arbitrary: cfg s)
  case Nil
  then show ?case by simp
next
  case (Cons kc kcs)
  obtain k cc where kc: "kc = (k, cc)" by (cases kc)
  show ?case
  proof (cases "truthy (form_message gen s k)")
    case False
    then show ?thesis by (simp add: kc custom_rules_Cons)
  next
    case True
    let ?s1 = "s\<lparr>messages := (messages s)(k := form_message gen s k)\<rparr>"
    let ?cfg1 = "cfg @ [custom_rule gen f (form_message gen s k) (k, cc)]"
    have step: "custom_rules gen f (kc # kcs) cfg s = custom_rules gen f kcs ?cfg1 ?s1"
      using True by (simp add: kc custom_rules_Cons)
    show ?thesis unfolding step Cons.IH[of ?cfg1 ?s1] using True
      by (simp add: kc split: option.splits)
  qed
qed

lemma custom_rules_messages_other:
  "k \<notin> fst ` set kcs \<Longrightarrow> messages (snd (custom_rules gen f kcs cfg s)) k = messages s k"
proof (induction kcs arbitrary: cfg s)
  case Nil
  show ?case by simp
next
  case (Cons kc kcs)
  obtain k' cc where kc: "kc = (k', cc)" by (cases kc)
  let ?s1 = "s\<lparr>messages := (messages s)(k' := form_message gen s k')\<rparr>"
  let ?cfg1 = "cfg @ [custom_rule gen f (form_message gen s k') (k', cc)]"
  from Cons.prems have ne: "k \<noteq> k'" and notin: "k \<notin> fst ` set kcs" by (auto simp: kc)
  have "messages (snd (custom_rules gen f kcs ?cfg1 ?s1)) k = messages ?s1 k"
    by (rule Cons.IH[OF notin])
  then show ?case using ne by (simp add: kc custom_rules_Cons)
qed

lemma custom_rules_messages_value:
  "messages (snd (custom_rules gen f kcs cfg s)) k = messages s k
   \<or> messages (snd (custom_rules gen f kcs cfg s)) k = form_message gen s k"
proof (induction kcs arbitrary: cfg s)
  case Nil
  show ?case by simp
next
  case (Cons kc kcs)
  obtain k' cc where kc: "kc = (k', cc)" by (cases kc)
  let ?s1 = "s\<lparr>messages := (messages s)(k' := form_message gen s k')\<rparr>"
  let ?cfg1 = "cfg @ [custom_rule gen f (form_message gen s k') (k', cc)]"
  have "messages (snd (custom_rules gen f kcs ?cfg1 ?s1)) k = messages ?s1 k
   \<or> messages (snd (custom_rules gen f kcs ?cfg1 ?s1)) k = form_message gen ?s1 k"
    by (rule Cons.IH)
  then show ?case by (cases "k = k'") (auto simp: kc custom_rules_Cons)
qed

subsection \<open>One rule of the walk\<close>

lemma ui_step_refl: "ui_step I s s"
  by (simp add: ui_step_def same_inputs_refl)

lemma ui_step_trans:
  assumes "ui_step I s t" "ui_step J t u"
  shows "ui_step (I \<union> J) s u"
proof -
  have si: "same_inputs s u" using assms by (auto simp: ui_step_def intro: same_inputs_trans)
  have gr: "\<And>j. group (elems t j) = group (elems s j)"
    using assms(1) by (simp add: ui_step_def same_inputs_def same_static_def)
  have el: "\<forall>j. j \<notin> I \<union> J \<longrightarrow> elems u j = elems s j"
    using assms by (simp add: ui_step_def)
  have g: "\<forall>g. (\<forall>j\<in>I \<union> J. group (elems s j) \<noteq> Some g) \<longrightarrow> groups u g = groups s g"
  proof (intro allI impI)
    fix g assume h: "\<forall>j\<in>I \<union> J. group (elems s j) \<noteq> Some g"
    then have "groups t g = groups s g" using assms(1) by (simp add: ui_step_def)
    moreover have "groups u g = groups t g" using assms(2) h gr by (simp add: ui_step_def)
    ultimately show "groups u g = groups s g" by simp
  qed
  show ?thesis unfolding ui_step_def using si el g by blast
qed

lemma ui_step_trans_same: "ui_step I s t \<Longrightarrow> ui_step I t u \<Longrightarrow> ui_step I s u"
  using ui_step_trans[of I s t I u] by simp

lemma ui_step_mono: "ui_step I s s' \<Longrightarrow> I \<subseteq> J \<Longrightarrow> ui_step J s s'"
  unfolding ui_step_def by blast

lemma ui_step_messages: "ui_step I s (s\<lparr>messages := m\<rparr>)"
  by (simp add: ui_step_def same_inputs_def same_static_def)

lemma ui_step_update_classList: "ui_step {i} s (update_classList i f s)"
  by (simp add: ui_step_def same_inputs_def same_static_def update_classList_def)

lemma ui_step_dispatchEvent: "ui_step {i} s (dispatchEvent i n s)"
  by (simp add: ui_step_def same_inputs_def same_static_def dispatchEvent_def)

lemma ui_step_showError:
  "ui_step {i} s (snd (showError f (group (elems s i)) m c s))"
  by (auto simp: ui_step_def same_inputs_def same_static_def showError_def Let_def
      split: option.splits)

lemma ui_step_hideError:
  "ui_step {i} s (snd (hideError (group (elems s i)) c s))"
  by (auto simp: ui_step_def same_inputs_def same_static_def hideError_def
      split: option.splits)

lemma group_update_classList [simp]: "group (elems (update_classList i f s) j) = group (elems s j)"
  by (simp add: update_classList_def)

lemma snd_case_show:
  "snd (case p of (Inl e, s3) \<Rightarrow> (Inl e, s3) | (Inr u, s3) \<Rightarrow> (Inr b, g s3))
     = (case fst p of Inl e \<Rightarrow> snd p | Inr u \<Rightarrow> g (snd p))"
  by (cases p; cases "fst p") auto

lemma fst_case_show:
  "fst (case p of (Inl e, s3) \<Rightarrow> (Inl e, s3) | (Inr u, s3) \<Rightarrow> (Inr b, g s3))
     = (case fst p of Inl e \<Rightarrow> Inl e | Inr u \<Rightarrow> Inr b)"
  by (cases p; cases "fst p") auto

lemma rule_step_skip: "\<not> checkCondition el \<Longrightarrow> rule_step gen i el s = (Inr True, s)"
  by (simp add: rule_step_def)

lemma rule_step_fail:
  "checkCondition el \<Longrightarrow> validationType el \<Longrightarrow>
   rule_step gen i el s =
     (case showError
             (elems (update_classList i (class_add (invalidClass (options s)))
                (update_classList i (class_remove (validClass (options s))) s)) i)
             (group (elems s i)) (msg el) ''form__error-block''
             (update_classList i (class_add (invalidClass (options s)))
                (update_classList i (class_remove (validClass (options s))) s)) of
        (Inl e, s3) \<Rightarrow> (Inl e, s3)
      | (Inr u, s3) \<Rightarrow> (Inr False, dispatchEvent i (error_event gen) s3))"
  unfolding rule_step_def Let_def by (simp only: if_True)

lemma rule_step_pass:
  "checkCondition el \<Longrightarrow> \<not> validationType el \<Longrightarrow>
   rule_step gen i el s =
     (case hideError (group (elems s i)) ''form__error-block''
             (update_classList i
                (if fvalue (elems s i) \<noteq> [] then class_add ''is-valid'' else class_remove ''is-valid'')
                (update_classList i (class_remove ''is-invalid'') s)) of
        (Inl e, s3) \<Rightarrow> (Inl e, s3)
      | (Inr u, s3) \<Rightarrow> (Inr True, s3))"
  unfolding rule_step_def Let_def by (simp add: update_classList_def)

lemma ui_step_rule_step: "ui_step {i} s (snd (rule_step gen i el s))"
proof (cases "checkCondition el")
  case False
  then show ?thesis by (simp add: rule_step_skip ui_step_refl)
next
  case cc: True
  show ?thesis
  proof (cases "validationType el")
    case True
    define s2 where "s2 = update_classList i (class_add (invalidClass (options s)))
                (update_classList i (class_remove (validClass (options s))) s)"
    define p where "p = showError (elems s2 i) (group (elems s i)) (msg el) ''form__error-block'' s2"
    have a: "ui_step {i} s s2" unfolding s2_def
      by (rule ui_step_trans_same[OF ui_step_update_classList ui_step_update_classList])
    have g: "group (elems s i) = group (elems s2 i)" by (simp add: s2_def)
    have b: "ui_step {i} s2 (snd p)" unfolding p_def g by (rule ui_step_showError)
    have c: "ui_step {i} s (snd p)" by (rule ui_step_trans_same[OF a b])
    have d: "ui_step {i} s (dispatchEvent i (error_event gen) (snd p))"
      by (rule ui_step_trans_same[OF c ui_step_dispatchEvent])
    have e: "rule_step gen i el s
            = (case p of (Inl e, s3) \<Rightarrow> (Inl e, s3)
               | (Inr u, s3) \<Rightarrow> (Inr False, dispatchEvent i (error_event gen) s3))"
      unfolding p_def s2_def by (rule rule_step_fail[OF cc True])
    show ?thesis
    proof (cases p)
      case (Pair r s3)
      then show ?thesis using c d e by (cases r) simp_all
    qed
  next
    case False
    define s2 where "s2 = update_classList i
                (if fvalue (elems s i) \<noteq> [] then class_add ''is-valid'' else class_remove ''is-valid'')
                (update_classList i (class_remove ''is-invalid'') s)"
    define p where "p = hideError (group (elems s i)) ''form__error-block'' s2"
    have a: "ui_step {i} s s2" unfolding s2_def
      by (rule ui_step_trans_same[OF ui_step_update_classList ui_step_update_classList])
    have g: "group (elems s i) = group (elems s2 i)" by (simp add: s2_def)
    have b: "ui_step {i} s2 (snd p)" unfolding p_def g by (rule ui_step_hideError)
    have c: "ui_step {i} s (snd p)" by (rule ui_step_trans_same[OF a b])
    have e: "rule_step gen i el s
            = (case p of (Inl e, s3) \<Rightarrow> (Inl e, s3) | (Inr u, s3) \<Rightarrow> (Inr True, s3))"
      unfolding p_def s2_def by (rule rule_step_pass[OF cc False])
    show ?thesis
    proof (cases p)
      case (Pair r s3)
      then show ?thesis using c e by (cases r) simp_all
    qed
  qed
qed

lemma showError_fst: "fst (showError f c m css s) = (if c = None then Inl TypeError else Inr ())"
  by (simp add: showError_def Let_def split: option.splits)

lemma hideError_fst: "fst (hideError c css s) = (if c = None then Inl TypeError else Inr ())"
  by (simp add: hideError_def split: option.splits)

lemma showError_frame:
  "elems (snd (showError f c m css s)) = elems s"
  "messages (snd (showError f c m css s)) = messages s"
  "formFields (snd (showError f c m css s)) = formFields s"
  by (simp_all add: showError_def Let_def split: option.splits)

lemma hideError_frame:
  "elems (snd (hideError c css s)) = elems s"
  "messages (snd (hideError c css s)) = messages s"
  "formFields (snd (hideError c css s)) = formFields s"
  "timers (snd (hideError c css s)) = timers s"
  by (simp_all add: hideError_def split: option.splits)

lemma showError_block:
  "\<exists>b. groups (snd (showError f (Some g) m css s)) g = Some b
       \<and> innerHTML b = ''<span>'' @ to_string m @ ''</span>''"
  by (simp add: showError_def Let_def split: option.splits)

lemma update_classList_frame [simp]:
  "messages (update_classList i f s) = messages s"
  "formFields (update_classList i f s) = formFields s"
  "groups (update_classList i f s) = groups s"
  "timers (update_classList i f s) = timers s"
  "options (update_classList i f s) = options s"
  "events (elems (update_classList i f s) j) = events (elems s j)"
  "fvalue (elems (update_classList i f s) j) = fvalue (elems s j)"
  "classList (elems (update_classList i f s) i) = f (classList (elems s i))"
  by (simp_all add: update_classList_def)

lemma dispatchEvent_frame [simp]:
  "messages (dispatchEvent i n s) = messages s"
  "formFields (dispatchEvent i n s) = formFields s"
  "groups (dispatchEvent i n s) = groups s"
  "classList (elems (dispatchEvent i n s) j) = classList (elems s j)"
  "events (elems (dispatchEvent i n s) i) = events (elems s i) @ [n]"
  by (simp_all add: dispatchEvent_def)

lemma case_pair_sum:
  "(case p of (Inl e, s3) \<Rightarrow> (Inl e, s3) | (Inr u, s3) \<Rightarrow> (Inr b, g s3))
     = (case fst p of Inl e \<Rightarrow> (Inl e, snd p) | Inr u \<Rightarrow> (Inr b, g (snd p)))"
  by (cases p; cases "fst p") auto

lemma case_pair_sum_id:
  "(case p of (Inl e, s3) \<Rightarrow> (Inl e, s3) | (Inr u, s3) \<Rightarrow> (Inr b, s3))
     = (case fst p of Inl e \<Rightarrow> (Inl e, snd p) | Inr u \<Rightarrow> (Inr b, snd p))"
  by (cases p; cases "fst p") auto

lemma rule_step_fst: "fst (rule_step gen i el s) = walk (group (elems s i)) [el]"
proof (cases "checkCondition el")
  case False
  then show ?thesis by (simp add: rule_step_skip)
next
  case cc: True
  show ?thesis
  proof (cases "validationType el")
    case True
    show ?thesis unfolding rule_step_fail[OF cc True] case_pair_sum
      using cc True by (simp add: showError_fst split: sum.splits)
  next
    case False
    show ?thesis unfolding rule_step_pass[OF cc False] case_pair_sum_id
      using cc False by (simp add: hideError_fst split: sum.splits)
  qed
qed

lemma rule_step_frame:
  "messages (snd (rule_step gen i el s)) = messages s"
  "formFields (snd (rule_step gen i el s)) = formFields s"
proof -
  show "messages (snd (rule_step gen i el s)) = messages s"
  proof (cases "checkCondition el")
    case False
    then show ?thesis by (simp add: rule_step_skip)
  next
    case cc: True
    show ?thesis
    proof (cases "validationType el")
      case True
      show ?thesis unfolding rule_step_fail[OF cc True] case_pair_sum
        by (simp add: showError_frame split: sum.splits)
    next
      case False
      show ?thesis unfolding rule_step_pass[OF cc False] case_pair_sum_id
        by (simp add: hideError_frame split: sum.splits)
    qed
  qed
  show "formFields (snd (rule_step gen i el s)) = formFields s"
  proof (cases "checkCondition el")
    case False
    then show ?thesis by (simp add: rule_step_skip)
  next
    case cc: True
    show ?thesis
    proof (cases "validationType el")
      case True
      show ?thesis unfolding rule_step_fail[OF cc True] case_pair_sum
        by (simp add: showError_frame split: sum.splits)
    next
      case False
      show ?thesis unfolding rule_step_pass[OF cc False] case_pair_sum_id
        by (simp add: hideError_frame split: sum.splits)
    qed
  qed
qed

lemma rule_step_events:
  "events (elems (snd (rule_step gen i el s)) i)
     = events (elems s i) @ (if fst (rule_step gen i el s) = Inr False then [error_event gen] else [])"
proof (cases "checkCondition el")
  case False
  then show ?thesis by (simp add: rule_step_skip)
next
  case cc: True
  show ?thesis
  proof (cases "validationType el")
    case True
    show ?thesis unfolding rule_step_fail[OF cc True] case_pair_sum
      by (simp add: showError_frame split: sum.splits)
  next
    case False
    show ?thesis unfolding rule_step_pass[OF cc False] case_pair_sum_id
      by (simp add: hideError_frame split: sum.splits)
  qed
qed

lemma rule_step_pass_classes:
  "fst (rule_step gen i el s) = Inr True \<Longrightarrow>
   classList (elems (snd (rule_step gen i el s)) i)
     = (if checkCondition el then pass_classes (fvalue (elems s i)) (classList (elems s i))
        else classList (elems s i))"
proof (cases "checkCondition el")
  case False
  then show ?thesis by (simp add: rule_step_skip)
next
  case cc: True
  assume r: "fst (rule_step gen i el s) = Inr True"
  show ?thesis
  proof (cases "validationType el")
    case True
    with r cc show ?thesis by (simp add: rule_step_fst split: if_splits)
  next
    case False
    show ?thesis unfolding rule_step_pass[OF cc False] case_pair_sum_id
      using cc by (simp add: hideError_frame pass_classes_def split: sum.splits)
  qed
qed

lemma rule_step_fail_block:
  assumes "fst (rule_step gen i el s) = Inr False" "group (elems s i) = Some g"
  shows "\<exists>b. groups (snd (rule_step gen i el s)) g = Some b
       \<and> innerHTML b = ''<span>'' @ to_string (msg el) @ ''</span>''"
proof -
  from assms(1) have cc: "checkCondition el" and vt: "validationType el"
    by (auto simp: rule_step_fst split: if_splits)
  show ?thesis unfolding rule_step_fail[OF cc vt] case_pair_sum assms(2)
    using showError_block[of _ g "msg el"] by (simp add: showError_fst)
qed

subsection \<open>The walk over the rules of a field\<close>

lemma every_Cons:
  "every (x # xs) cb s =
     (case fst (cb x s) of
        Inl e \<Rightarrow> (Inl e, snd (cb x s))
      | Inr ok \<Rightarrow> if ok then every xs cb (snd (cb x s)) else (Inr False, snd (cb x s)))"
  by (cases "cb x s"; cases "fst (cb x s)") auto

declare every.simps(2) [simp del]

lemma ui_step_static:
  "ui_step I s s' \<Longrightarrow> group (elems s' j) = group (elems s j)"
  "ui_step I s s' \<Longrightarrow> fvalue (elems s' j) = fvalue (elems s j)"
  by (simp_all add: ui_step_def same_inputs_def same_static_def)

lemma walk_Some:
  "walk (Some g) cfg = (if list_ex failing cfg then Inr False else Inr True)"
  by (induction cfg) (auto simp: failing_def)

lemma walk_None:
  "walk None cfg = (if list_ex checkCondition cfg then Inl TypeError else Inr True)"
  by (induction cfg) auto

lemma walk_Cons_single:
  "walk g (el # rest) = (case walk g [el] of Inr True \<Rightarrow> walk g rest | r \<Rightarrow> r)"
  by (simp split: sum.splits bool.splits)

lemma every_rules_fst: "fst (every cfg (rule_step gen i) s) = walk (group (elems s i)) cfg"
proof (induction cfg arbitrary: s)
  case Nil
  show ?case by simp
next
  case (Cons el rest)
  let ?s1 = "snd (rule_step gen i el s)"
  have g: "group (elems ?s1 i) = group (elems s i)"
    by (rule ui_step_static(1)[OF ui_step_rule_step])
  have ih: "fst (every rest (rule_step gen i) ?s1) = walk (group (elems s i)) rest"
    using Cons.IH[of ?s1] g by simp
  show ?case unfolding every_Cons walk_Cons_single[of _ el rest] rule_step_fst
    using ih by (simp split: sum.splits bool.splits)
qed

lemma every_rules_ui: "ui_step {i} s (snd (every cfg (rule_step gen i) s))"
proof (induction cfg arbitrary: s)
  case Nil
  show ?case by (simp add: ui_step_refl)
next
  case (Cons el rest)
  let ?s1 = "snd (rule_step gen i el s)"
  have a: "ui_step {i} s ?s1" by (rule ui_step_rule_step)
  have b: "ui_step {i} s (snd (every rest (rule_step gen i) ?s1))"
    by (rule ui_step_trans_same[OF a Cons.IH])
  show ?case unfolding every_Cons using a b by (simp split: sum.splits)
qed

lemma every_rules_frame:
  "messages (snd (every cfg (rule_step gen i) s)) = messages s"
  "formFields (snd (every cfg (rule_step gen i) s)) = formFields s"
proof (induction cfg arbitrary: s)
  case Nil
  { case 1 show ?case by simp }
  { case 2 show ?case by simp }
next
  case (Cons el rest)
  { case 1 show ?case unfolding every_Cons
      using Cons.IH(1)[of "snd (rule_step gen i el s)"]
      by (simp add: rule_step_frame split: sum.splits) }
  { case 2 show ?case unfolding every_Cons
      using Cons.IH(2)[of "snd (rule_step gen i el s)"]
      by (simp add: rule_step_frame split: sum.splits) }
qed

lemma every_rules_events:
  "events (elems (snd (every cfg (rule_step gen i) s)) i)
     = events (elems s i)
       @ (if fst (every cfg (rule_step gen i) s) = Inr False then [error_event gen] else [])"
proof (induction cfg arbitrary: s)
  case Nil
  show ?case by simp
next
  case (Cons el rest)
  show ?case unfolding every_Cons
    using Cons.IH[of "snd (rule_step gen i el s)"] rule_step_events[of gen i el s]
    by (simp split: sum.splits)
qed


lemma class_remove_idem [simp]: "class_remove c (class_remove c cl) = class_remove c cl"
  by (simp add: class_remove_def)

lemma class_remove_commute: "class_remove c (class_remove d cl) = class_remove d (class_remove c cl)"
  by (induction cl) (auto simp: class_remove_def)

lemma set_class_remove [simp]: "set (class_remove c cl) = set cl - {c}"
  by (simp add: class_remove_def)

lemma set_class_add [simp]: "set (class_add c cl) = insert c (set cl)"
  by (auto simp: class_add_def)

lemma class_remove_add: "c \<noteq> d \<Longrightarrow> class_remove c (class_add d cl) = class_add d (class_remove c cl)"
  by (auto simp: class_remove_def class_add_def)

lemma class_remove_absent: "c \<notin> set cl \<Longrightarrow> class_remove c cl = cl"
  by (simp add: class_remove_def)

lemma class_add_idem [simp]: "class_add c (class_add c cl) = class_add c cl"
  by (simp add: class_add_def)

lemma pass_classes_idem: "pass_classes v (pass_classes v cl) = pass_classes v cl"
proof (cases "v = []")
  case True
  then show ?thesis by (simp add: pass_classes_def class_remove_commute[of "''is-invalid''" "''is-valid''"])
next
  case False
  have "class_remove ''is-invalid'' (class_add ''is-valid'' (class_remove ''is-invalid'' cl))
          = class_add ''is-valid'' (class_remove ''is-invalid'' cl)"
    by (simp add: class_remove_add)
  with False show ?thesis by (simp add: pass_classes_def)
qed

lemma every_rules_classes:
  "fst (every cfg (rule_step gen i) s) = Inr True \<Longrightarrow>
   classList (elems (snd (every cfg (rule_step gen i) s)) i)
     = (if list_ex checkCondition cfg then pass_classes (fvalue (elems s i)) (classList (elems s i))
        else classList (elems s i))"
proof (induction cfg arbitrary: s)
  case Nil
  show ?case by simp
next
  case (Cons el rest)
  let ?s1 = "snd (rule_step gen i el s)"
  from Cons.prems have r1: "fst (rule_step gen i el s) = Inr True"
    and r2: "fst (every rest (rule_step gen i) ?s1) = Inr True"
    by (auto simp: every_Cons split: sum.splits if_splits)
  have v: "fvalue (elems ?s1 i) = fvalue (elems s i)"
    by (rule ui_step_static(2)[OF ui_step_rule_step])
  have e: "every (el # rest) (rule_step gen i) s = every rest (rule_step gen i) ?s1"
    using r1 by (simp add: every_Cons)
  show ?case unfolding e Cons.IH[OF r2] rule_step_pass_classes[OF r1] v
    by (simp add: pass_classes_idem)
qed

lemma every_rules_block:
  "fst (every cfg (rule_step gen i) s) = Inr False \<Longrightarrow> group (elems s i) = Some g \<Longrightarrow>
   \<exists>el b. find failing cfg = Some el \<and> groups (snd (every cfg (rule_step gen i) s)) g = Some b
       \<and> innerHTML b = ''<span>'' @ to_string (msg el) @ ''</span>''"
proof (induction cfg arbitrary: s)
  case Nil
  then show ?case by simp
next
  case (Cons el rest)
  let ?s1 = "snd (rule_step gen i el s)"
  have g1: "group (elems ?s1 i) = Some g"
    using ui_step_static(1)[OF ui_step_rule_step, of gen i el s i] Cons.prems(2) by simp
  show ?case
  proof (cases "failing el")
    case True
    then have r: "fst (rule_step gen i el s) = Inr False"
      using Cons.prems(2) by (simp add: rule_step_fst failing_def)
    then have e: "every (el # rest) (rule_step gen i) s = (Inr False, ?s1)"
      by (simp add: every_Cons)
    show ?thesis unfolding e using rule_step_fail_block[OF r Cons.prems(2)] True by simp
  next
    case False
    then have r: "fst (rule_step gen i el s) = Inr True"
      using Cons.prems(2) by (auto simp: rule_step_fst failing_def)
    then have e: "every (el # rest) (rule_step gen i) s = every rest (rule_step gen i) ?s1"
      by (simp add: every_Cons)
    from Cons.prems(1) have "fst (every rest (rule_step gen i) ?s1) = Inr False"
      unfolding e .
    from Cons.IH[OF this g1] show ?thesis unfolding e using False by simp
  qed
qed

subsection \<open>The callback on one field\<close>

lemma validate_field_eq:
  "validate_field gen i s =
     (case fst (custom_rules gen (elems s i) (customChecks s) (validationConfig s (elems s i)) s) of
        Inl e \<Rightarrow> (Inl e, snd (custom_rules gen (elems s i) (customChecks s) (validationConfig s (elems s i)) s))
      | Inr cfg \<Rightarrow> every cfg (rule_step gen i)
          (snd (custom_rules gen (elems s i) (customChecks s) (validationConfig s (elems s i)) s)))"
  unfolding validate_field_def
  by (cases "custom_rules gen (elems s i) (customChecks s) (validationConfig s (elems s i)) s";
      cases "fst (custom_rules gen (elems s i) (customChecks s) (validationConfig s (elems s i)) s)")
     auto

lemma custom_rules_fst':
  "fst (custom_rules gen (elems s i) (customChecks s) (validationConfig s (elems s i)) s)
     = (case missing_message gen s of
          Some kc \<Rightarrow> Inl (MissingMessage (fst kc))
        | None \<Rightarrow> Inr (candidates gen s i))"
  by (simp add: custom_rules_fst missing_message_def candidates_def split: option.splits)

lemma validate_field_missing:
  "missing_message gen s = Some kc \<Longrightarrow>
   \<exists>m. validate_field gen i s = (Inl (MissingMessage (fst kc)), s\<lparr>messages := m\<rparr>)"
proof -
  assume a: "missing_message gen s = Some kc"
  obtain m where m: "snd (custom_rules gen (elems s i) (customChecks s) (validationConfig s (elems s i)) s)
     = s\<lparr>messages := m\<rparr>"
    using custom_rules_state by blast
  show ?thesis unfolding validate_field_eq custom_rules_fst' a m by (intro exI[of _ m]) simp
qed

lemma validate_field_defined:
  "missing_message gen s = None \<Longrightarrow>
   \<exists>m. validate_field gen i s = every (candidates gen s i) (rule_step gen i) (s\<lparr>messages := m\<rparr>)"
proof -
  assume a: "missing_message gen s = None"
  obtain m where m: "snd (custom_rules gen (elems s i) (customChecks s) (validationConfig s (elems s i)) s)
     = s\<lparr>messages := m\<rparr>"
    using custom_rules_state by blast
  show ?thesis unfolding validate_field_eq custom_rules_fst' a m by (intro exI[of _ m]) simp
qed

lemma outcome_eq:
  "outcome gen s i =
     (case missing_message gen s of
        Some kc \<Rightarrow> Inl (MissingMessage (fst kc))
      | None \<Rightarrow> walk (group (elems s i)) (candidates gen s i))"
proof (cases "missing_message gen s")
  case None
  from validate_field_defined[OF None, of i] obtain m where
    "validate_field gen i s = every (candidates gen s i) (rule_step gen i) (s\<lparr>messages := m\<rparr>)"
    by blast
  then show ?thesis by (simp add: outcome_def None every_rules_fst)
next
  case (Some kc)
  from validate_field_missing[OF Some, of i] show ?thesis by (auto simp: outcome_def Some)
qed

lemma validate_field_ui: "ui_step {i} s (snd (validate_field gen i s))"
proof (cases "missing_message gen s")
  case None
  from validate_field_defined[OF None, of i] obtain m where
    e: "validate_field gen i s = every (candidates gen s i) (rule_step gen i) (s\<lparr>messages := m\<rparr>)"
    by blast
  show ?thesis unfolding e by (rule ui_step_trans_same[OF ui_step_messages every_rules_ui])
next
  case (Some kc)
  from validate_field_missing[OF Some, of i] show ?thesis by (auto simp: ui_step_messages)
qed

lemma validate_field_formFields: "formFields (snd (validate_field gen i s)) = formFields s"
proof (cases "missing_message gen s")
  case None
  from validate_field_defined[OF None, of i] obtain m where
    e: "validate_field gen i s = every (candidates gen s i) (rule_step gen i) (s\<lparr>messages := m\<rparr>)"
    by blast
  show ?thesis unfolding e by (simp add: every_rules_frame)
next
  case (Some kc)
  from validate_field_missing[OF Some, of i] show ?thesis by auto
qed

lemma validate_field_events:
  "events (elems (snd (validate_field gen i s)) i)
     = events (elems s i) @ (if outcome gen s i = Inr False then [error_event gen] else [])"
proof (cases "missing_message gen s")
  case None
  from validate_field_defined[OF None, of i] obtain m where
    e: "validate_field gen i s = every (candidates gen s i) (rule_step gen i) (s\<lparr>messages := m\<rparr>)"
    by blast
  show ?thesis unfolding outcome_def e using every_rules_events[of "candidates gen s i" gen i "s\<lparr>messages := m\<rparr>"]
    by simp
next
  case (Some kc)
  from validate_field_missing[OF Some, of i] show ?thesis by (auto simp: outcome_def)
qed

lemma validate_field_messages_other:
  "k \<notin> fst ` set (customChecks s) \<Longrightarrow> messages (snd (validate_field gen i s)) k = messages s k"
  unfolding validate_field_eq
  by (simp add: every_rules_frame custom_rules_messages_other split: sum.splits)

lemma validate_field_messages_value:
  "messages (snd (validate_field gen i s)) k = messages s k
   \<or> messages (snd (validate_field gen i s)) k = form_message gen s k"
  unfolding validate_field_eq
  using custom_rules_messages_value[of gen "elems s i" "customChecks s" "validationConfig s (elems s i)" s k]
  by (simp add: every_rules_frame split: sum.splits)

text \<open>A verdict depends on the inputs of \<open>same_inputs\<close> and on the element itself only.\<close>

lemma form_message_same: "same_inputs s s' \<Longrightarrow> form_message gen s' k = form_message gen s k"
  by (simp add: same_inputs_def form_message_def form_getAttribute_def
      split: generation.splits)

lemma missing_message_same: "same_inputs s s' \<Longrightarrow> missing_message gen s' = missing_message gen s"
  by (simp add: missing_message_def form_message_same) (simp add: same_inputs_def)

lemma querySelector_checked_same:
  "same_inputs s s' \<Longrightarrow> querySelector_checked s' n = querySelector_checked s n"
  by (simp add: querySelector_checked_def same_inputs_def same_static_def)

lemma walk_flags: "map flags cfg = map flags cfg' \<Longrightarrow> walk g cfg = walk g cfg'"
proof (induction cfg arbitrary: cfg')
  case Nil
  then show ?case by simp
next
  case (Cons el rest)
  then obtain el' rest' where c: "cfg' = el' # rest'" "flags el = flags el'" "map flags rest = map flags rest'"
    by (cases cfg') auto
  from Cons.IH[OF c(3)] c(2) show ?case by (simp add: c(1) flags_def)
qed

lemma candidates_flags:
  "same_inputs s s' \<Longrightarrow> elems s' i = elems s i \<Longrightarrow>
   map flags (candidates gen s' i) = map flags (candidates gen s i)"
  by (simp add: candidates_def validationConfig_def flags_def custom_rule_def o_def
      querySelector_checked_same) (simp add: same_inputs_def)

lemma outcome_same:
  "same_inputs s s' \<Longrightarrow> elems s' i = elems s i \<Longrightarrow> outcome gen s' i = outcome gen s i"
  unfolding outcome_eq
  by (simp add: missing_message_same walk_flags[OF candidates_flags] split: option.splits)

lemma applicable_same:
  "same_inputs s s' \<Longrightarrow> elems s' i = elems s i \<Longrightarrow> applicable gen s' i = applicable gen s i"
proof -
  assume a: "same_inputs s s'" "elems s' i = elems s i"
  have "list_ex checkCondition cfg = list_ex fst (map flags cfg)" for cfg
    by (induction cfg) (simp_all add: flags_def)
  then show ?thesis unfolding applicable_def using candidates_flags[OF a] by simp
qed

subsection \<open>The loop over the fields\<close>

lemma every_fields_pass:
  "passes gen s x \<Longrightarrow>
   every (x # xs) (validate_field gen) s = every xs (validate_field gen) (snd (validate_field gen x s))"
  by (simp add: every_Cons passes_def outcome_def)

lemma every_fields_stop:
  "\<not> passes gen s x \<Longrightarrow>
   every (x # xs) (validate_field gen) s = (outcome gen s x, snd (validate_field gen x s))"
  by (auto simp: every_Cons passes_def outcome_def prod_eq_iff split: sum.splits)

lemma outcome_after:
  "x \<noteq> j \<Longrightarrow> outcome gen (snd (validate_field gen x s)) j = outcome gen s j"
  using validate_field_ui[of x s gen] by (intro outcome_same) (simp_all add: ui_step_def)

lemma passes_after:
  "x \<noteq> j \<Longrightarrow> passes gen (snd (validate_field gen x s)) j = passes gen s j"
  by (simp add: passes_def outcome_after)

lemma passes_after_set:
  "x \<notin> set xs \<Longrightarrow> j \<in> set xs \<Longrightarrow> passes gen (snd (validate_field gen x s)) j = passes gen s j"
  by (rule passes_after) auto

lemma visited_Cons: "visited p (x # xs) = (if p x then x # visited p xs else [x])"
  by (simp add: visited_def)

lemma visited_Nil [simp]: "visited p [] = []"
  by (simp add: visited_def)

lemma visited_cong: "(\<And>j. j \<in> set xs \<Longrightarrow> p j = q j) \<Longrightarrow> visited p xs = visited q xs"
  by (induction xs) (simp_all add: visited_Cons)

lemma visited_subset: "set (visited p xs) \<subseteq> set xs"
  by (induction xs) (auto simp: visited_Cons)

lemma find_cong': "(\<And>j. j \<in> set xs \<Longrightarrow> p j = q j) \<Longrightarrow> find p xs = find q xs"
  by (induction xs) simp_all

lemma every_fields_ui:
  "distinct fs \<Longrightarrow> ui_step (set (visited (passes gen s) fs)) s (snd (every fs (validate_field gen) s))"
proof (induction fs arbitrary: s)
  case Nil
  show ?case by (simp add: ui_step_refl)
next
  case (Cons x xs)
  let ?s1 = "snd (validate_field gen x s)"
  from Cons.prems have nx: "x \<notin> set xs" and d: "distinct xs" by simp_all
  have a: "ui_step {x} s ?s1" by (rule validate_field_ui)
  show ?case
  proof (cases "passes gen s x")
    case True
    have v: "visited (passes gen ?s1) xs = visited (passes gen s) xs"
      using nx by (intro visited_cong) (rule passes_after_set)
    have "ui_step ({x} \<union> set (visited (passes gen s) xs)) s (snd (every xs (validate_field gen) ?s1))"
      using ui_step_trans[OF a Cons.IH[OF d, of ?s1]] v by simp
    then show ?thesis using True by (simp add: every_fields_pass visited_Cons)
  next
    case False
    then show ?thesis using a by (simp add: every_fields_stop visited_Cons)
  qed
qed

lemma every_fields_ui_all:
  "ui_step (set fs) s (snd (every fs (validate_field gen) s))"
proof (induction fs arbitrary: s)
  case Nil
  show ?case by (simp add: ui_step_refl)
next
  case (Cons x xs)
  let ?s1 = "snd (validate_field gen x s)"
  have a: "ui_step {x} s ?s1" by (rule validate_field_ui)
  have b: "ui_step ({x} \<union> set xs) s (snd (every xs (validate_field gen) ?s1))"
    by (rule ui_step_trans[OF a Cons.IH])
  show ?case
  proof (cases "passes gen s x")
    case True
    then show ?thesis using b by (simp add: every_fields_pass)
  next
    case False
    then show ?thesis using ui_step_mono[OF a, of "set (x # xs)"] by (simp add: every_fields_stop)
  qed
qed

lemma every_fields_fst:
  "distinct fs \<Longrightarrow>
   fst (every fs (validate_field gen) s)
     = (case find (\<lambda>j. \<not> passes gen s j) fs of None \<Rightarrow> Inr True | Some j \<Rightarrow> outcome gen s j)"
proof (induction fs arbitrary: s)
  case Nil
  show ?case by simp
next
  case (Cons x xs)
  let ?s1 = "snd (validate_field gen x s)"
  from Cons.prems have nx: "x \<notin> set xs" and d: "distinct xs" by simp_all
  show ?case
  proof (cases "passes gen s x")
    case True
    have f: "find (\<lambda>j. \<not> passes gen ?s1 j) xs = find (\<lambda>j. \<not> passes gen s j) xs"
      using nx by (intro find_cong') (simp add: passes_after_set)
    have o: "\<And>j. find (\<lambda>j. \<not> passes gen s j) xs = Some j \<Longrightarrow> outcome gen ?s1 j = outcome gen s j"
      using nx by (auto simp: find_Some_iff intro!: outcome_after)
    show ?thesis using True Cons.IH[OF d, of ?s1] o
      by (simp add: every_fields_pass f split: option.splits)
  next
    case False
    then show ?thesis by (simp add: every_fields_stop)
  qed
qed

lemma every_fields_events:
  "distinct fs \<Longrightarrow>
   events (elems (snd (every fs (validate_field gen) s)) j)
     = events (elems s j)
       @ (if j \<in> set (visited (passes gen s) fs) \<and> outcome gen s j = Inr False
          then [error_event gen] else [])"
proof (induction fs arbitrary: s)
  case Nil
  show ?case by simp
next
  case (Cons x xs)
  let ?s1 = "snd (validate_field gen x s)"
  from Cons.prems have nx: "x \<notin> set xs" and d: "distinct xs" by simp_all
  have a: "ui_step {x} s ?s1" by (rule validate_field_ui)
  have ex: "events (elems ?s1 x) = events (elems s x) @ (if outcome gen s x = Inr False then [error_event gen] else [])"
    by (rule validate_field_events)
  have eo: "j \<noteq> x \<Longrightarrow> events (elems ?s1 j) = events (elems s j)"
    using a by (simp add: ui_step_def)
  show ?case
  proof (cases "passes gen s x")
    case True
    have v: "visited (passes gen ?s1) xs = visited (passes gen s) xs"
      using nx by (intro visited_cong) (rule passes_after_set)
    have ih: "events (elems (snd (every xs (validate_field gen) ?s1)) j)
                = events (elems ?s1 j)
                  @ (if j \<in> set (visited (passes gen s) xs) \<and> outcome gen ?s1 j = Inr False
                     then [error_event gen] else [])"
      using Cons.IH[OF d, of ?s1] v by simp
    show ?thesis
    proof (cases "j = x")
      case jx: True
      have "x \<notin> set (visited (passes gen s) xs)" using nx visited_subset[of "passes gen s" xs] by auto
      then show ?thesis using True ih ex jx
        by (simp add: every_fields_pass visited_Cons passes_def)
    next
      case jx: False
      then have "outcome gen ?s1 j = outcome gen s j" by (simp add: outcome_after)
      then show ?thesis using True ih eo jx
        by (simp add: every_fields_pass visited_Cons)
    qed
  next
    case False
    show ?thesis
    proof (cases "j = x")
      case True
      then show ?thesis using False ex by (simp add: every_fields_stop visited_Cons)
    next
      case jx: False
      then show ?thesis using False eo by (simp add: every_fields_stop visited_Cons)
    qed
  qed
qed

lemma every_fields_formFields:
  "formFields (snd (every fs (validate_field gen) s)) = formFields s"
proof (induction fs arbitrary: s)
  case Nil
  show ?case by simp
next
  case (Cons x xs)
  show ?case
    by (cases "passes gen s x")
       (simp_all add: every_fields_pass every_fields_stop Cons.IH validate_field_formFields)
qed

lemma every_fields_messages_other:
  "k \<notin> fst ` set (customChecks s) \<Longrightarrow>
   messages (snd (every fs (validate_field gen) s)) k = messages s k"
proof (induction fs arbitrary: s)
  case Nil
  show ?case by simp
next
  case (Cons x xs)
  let ?s1 = "snd (validate_field gen x s)"
  have c: "customChecks ?s1 = customChecks s"
    using validate_field_ui[of x s gen] by (simp add: ui_step_def same_inputs_def)
  have m: "messages ?s1 k = messages s k"
    by (rule validate_field_messages_other[OF Cons.prems])
  have "messages (snd (every xs (validate_field gen) ?s1)) k = messages ?s1 k"
    using Cons.IH[of ?s1] Cons.prems c by simp
  then show ?case using m
    by (cases "passes gen s x") (simp_all add: every_fields_pass every_fields_stop)
qed

lemma every_fields_messages_value:
  "messages (snd (every fs (validate_field gen) s)) k = messages s k
   \<or> messages (snd (every fs (validate_field gen) s)) k = form_message gen s k"
proof (induction fs arbitrary: s)
  case Nil
  show ?case by simp
next
  case (Cons x xs)
  let ?s1 = "snd (validate_field gen x s)"
  have f: "form_message gen ?s1 k = form_message gen s k"
    using validate_field_ui[of x s gen] by (intro form_message_same) (simp add: ui_step_def)
  have m: "messages ?s1 k = messages s k \<or> messages ?s1 k = form_message gen s k"
    by (rule validate_field_messages_value)
  have "messages (snd (every xs (validate_field gen) ?s1)) k = messages ?s1 k
     \<or> messages (snd (every xs (validate_field gen) ?s1)) k = form_message gen ?s1 k"
    by (rule Cons.IH)
  then show ?case using m f
    by (cases "passes gen s x") (auto simp: every_fields_pass every_fields_stop)
qed

subsection \<open>validate\<close>

lemma forEachNode_every:
  "forEachNode fs (validate_todo gen) (True, s)
     = (case every fs (validate_field gen) s of
          (Inl e, s') \<Rightarrow> (Inl e, (True, s'))
        | (Inr ok, s') \<Rightarrow> (Inr (), (ok, s')))"
proof (induction fs arbitrary: s)
  case Nil
  show ?case by simp
next
  case (Cons x xs)
  obtain r s1 where v: "validate_field gen x s = (r, s1)" by (cases "validate_field gen x s")
  show ?case
  proof (cases r)
    case (Inl e)
    then show ?thesis using v by (simp add: validate_todo_def every_Cons)
  next
    case (Inr ok)
    then show ?thesis using v Cons.IH[of s1] by (cases ok) (simp_all add: validate_todo_def every_Cons)
  qed
qed

lemma validate_every:
  "validate gen s =
     (case every (validated_fields gen s) (validate_field gen) (query_fields gen s) of
        (Inl e, s') \<Rightarrow> (Inl e, s')
      | (Inr result, s') \<Rightarrow> (Inr (), if result then submit s' else s'))"
proof (cases gen)
  case V1_0_0
  show ?thesis
    by (cases "every (dom_fields s) (validate_field V1_0_0) (s\<lparr>formFields := dom_fields s\<rparr>)")
       (auto simp: V1_0_0 validate_def validated_fields_def query_fields_def forEachNode_every
          split: sum.splits)
next
  case V0_1_0
  show ?thesis by (simp add: V0_1_0 validate_def validated_fields_def query_fields_def)
next
  case V0_1_1
  show ?thesis by (simp add: V0_1_1 validate_def validated_fields_def query_fields_def)
qed

lemma query_fields_ui: "ui_step {} s (query_fields gen s)"
  by (cases gen) (simp_all add: query_fields_def ui_step_def same_inputs_def same_static_def)

lemma query_fields_frame [simp]:
  "elems (query_fields gen s) = elems s"
  "groups (query_fields gen s) = groups s"
  "messages (query_fields gen s) = messages s"
  "customChecks (query_fields gen s) = customChecks s"
  "submits (query_fields gen s) = submits s"
  "timers (query_fields gen s) = timers s"
  by (cases gen; simp add: query_fields_def)+

lemma query_fields_outcome [simp]: "outcome gen (query_fields gen s) i = outcome gen s i"
  using query_fields_ui[of s gen] by (intro outcome_same) (simp_all add: ui_step_def)

lemma query_fields_passes [simp]: "passes gen (query_fields gen s) = passes gen s"
  by (rule ext) (simp add: passes_def)

lemma submit_frame [simp]:
  "elems (submit s) = elems s" "groups (submit s) = groups s" "messages (submit s) = messages s"
  "customChecks (submit s) = customChecks s" "formFields (submit s) = formFields s"
  "submits (submit s) = submits s + 1"
  by (simp_all add: submit_def)

lemma snd_validate:
  "snd (validate gen s) =
     (let r = every (validated_fields gen s) (validate_field gen) (query_fields gen s)
      in if fst r = Inr True then submit (snd r) else snd r)"
  unfolding validate_every Let_def
  by (cases "every (validated_fields gen s) (validate_field gen) (query_fields gen s)")
     (auto split: sum.splits)

lemma fst_validate:
  "fst (validate gen s) =
     (case fst (every (validated_fields gen s) (validate_field gen) (query_fields gen s)) of
        Inl e \<Rightarrow> Inl e | Inr b \<Rightarrow> Inr ())"
  unfolding validate_every
  by (cases "every (validated_fields gen s) (validate_field gen) (query_fields gen s)")
     (auto split: sum.splits)

lemma find_None_passes:
  "(find (\<lambda>j. \<not> p j) fs = None) = (\<forall>j\<in>set fs. p j)"
  by (auto simp: find_None_iff)

lemma every_fields_True:
  assumes "distinct fs"
  shows "(fst (every fs (validate_field gen) s) = Inr True) = (\<forall>j\<in>set fs. passes gen s j)"
proof (cases "find (\<lambda>j. \<not> passes gen s j) fs")
  case None
  then have "\<forall>j\<in>set fs. passes gen s j" by (simp add: find_None_passes)
  then show ?thesis using every_fields_fst[OF assms, of gen s] None by simp
next
  case (Some j)
  then have "\<not> passes gen s j" "j \<in> set fs" by (auto simp: find_Some_iff)
  then show ?thesis using every_fields_fst[OF assms, of gen s] Some by (auto simp: passes_def)
qed


subsection \<open>Running the model on an example\<close>

text \<open>The definitions unfolded to run the model on a concrete form.\<close>

lemma lowercase_literals:
  "ascii_lowercase ''required'' = ''required''"
  "ascii_lowercase ''name'' = ''name''"
  "ascii_lowercase ''id'' = ''id''"
  "ascii_lowercase ''novalidate'' = ''novalidate''"
  "ascii_lowercase ''data-msg-required'' = ''data-msg-required''"
  "ascii_lowercase ''data-msg-email'' = ''data-msg-email''"
  "ascii_lowercase ''data-msg-tel'' = ''data-msg-tel''"
  "ascii_lowercase ''data-msg-foo'' = ''data-msg-foo''"
  "ascii_lowercase ''data-validate-foo'' = ''data-validate-foo''"
  by (simp_all add: ascii_lowercase_def)

lemmas model_defs = validate_def validate_field_def rule_step_def showError_def hideError_def
  validationConfig_def update_classList_def dispatchEvent_def error_event_def submit_def
  hasAttribute_def getAttribute_def lowercase_literals field_name_def field_id_def
  querySelector_checked_def class_add_def class_remove_def
  empty_def regExp_def email_def tel_def trim_def is_ws_def every.simps custom_rules.simps Let_def
  dataConfig_of_def form_message_def form_getAttribute_def form_dataset_get_def dataset_get_def
  passes_def outcome_def validated_fields_def visited_def
  bare_form_def text_input_def required_input_def defaultParams_def

text \<open>Further definitions unfolded to run the model on the example forms.\<close>

lemmas scenario_defs = email_foo_form_def email_foo_dom_def messageless_rule_form_def builder_def setFieldCheck_def
  obj_set_def array_index_def setAttribute_def function_check_def regExp_check_def
  missing_message_def candidates_def custom_rule_def failing_def applicable_def
  dataName_def upper_char_def toLowerCase_def latin_lower_def latin_upper_def


subsection \<open>A field no rule applies to\<close>








subsection \<open>Classes of a passing field\<close>

lemma outcome_True_defined: "outcome gen s i = Inr True \<Longrightarrow> missing_message gen s = None"
  by (auto simp: outcome_eq split: option.splits)

lemma set_pass_classes:
  "set (pass_classes v cl)
     = (if v \<noteq> [] then insert ''is-valid'' (set cl - {''is-invalid''})
        else set cl - {''is-invalid'', ''is-valid''})"
  by (auto simp: pass_classes_def)

lemma passing_field_classList:
  assumes "outcome gen s i = Inr True" "applicable gen s i"
  shows "classList (elems (snd (validate_field gen i s)) i)
           = pass_classes (fvalue (elems s i)) (classList (elems s i))"
proof -
  from validate_field_defined[OF outcome_True_defined[OF assms(1)], of i] obtain m where
    e: "validate_field gen i s = every (candidates gen s i) (rule_step gen i) (s\<lparr>messages := m\<rparr>)"
    by blast
  have r: "fst (every (candidates gen s i) (rule_step gen i) (s\<lparr>messages := m\<rparr>)) = Inr True"
    using assms(1) by (simp add: outcome_def e)
  show ?thesis
    unfolding e every_rules_classes[OF r] using assms(2) by (simp add: applicable_def)
qed

text \<open>
  Claim C9, as amended. For a field that passes and to which at least one rule applies:
  \<^verbatim>\<open>is-valid\<close> is set when the trimmed value is not empty, it is cleared when the value is
  the empty string, and \<^verbatim>\<open>is-invalid\<close> is cleared.
\<close>

theorem passing_field_classes:
  assumes "outcome gen s i = Inr True" "applicable gen s i"
  shows "(trim (fvalue (elems s i)) \<noteq> []
            \<longrightarrow> ''is-valid'' \<in> set (classList (elems (snd (validate_field gen i s)) i)))
       \<and> (fvalue (elems s i) = []
            \<longrightarrow> ''is-valid'' \<notin> set (classList (elems (snd (validate_field gen i s)) i)))
       \<and> ''is-invalid'' \<notin> set (classList (elems (snd (validate_field gen i s)) i))"
proof -
  have t: "trim (fvalue (elems s i)) \<noteq> [] \<Longrightarrow> fvalue (elems s i) \<noteq> []"
    by (auto simp: trim_def)
  show ?thesis unfolding passing_field_classList[OF assms] using t
    by (auto simp: set_pass_classes)
qed

text \<open>On the first field of \<open>three_fields\<close>, which is required and holds \<^verbatim>\<open>x\<close>.\<close>

theorem passing_field_classes_witness:
  "outcome V0_1_0 three_fields 0 = Inr True \<and> applicable V0_1_0 three_fields 0
   \<and> trim (fvalue (elems three_fields 0)) \<noteq> []
   \<and> ''is-valid'' \<in> set (classList (elems (snd (validate_field V0_1_0 0 three_fields)) 0))
   \<and> ''is-invalid'' \<notin> set (classList (elems (snd (validate_field V0_1_0 0 three_fields)) 0))"
proof -
  have o: "outcome V0_1_0 three_fields 0 = Inr True"
    by (simp add: model_defs three_fields_def)
  have a: "applicable V0_1_0 three_fields 0"
    by (simp add: applicable_def candidates_def model_defs three_fields_def)
  have t: "trim (fvalue (elems three_fields 0)) \<noteq> []"
    by (simp add: model_defs three_fields_def)
  from passing_field_classes[OF o a] o a t show ?thesis by blast
qed

text \<open>
  Claim C9 as stated fails: the plain text input of \<open>one_plain_input\<close> passes and is not
  empty, and it does not get \<^verbatim>\<open>is-valid\<close>, since no rule applies to it.
\<close>

theorem unruled_field_not_valid_counterexample:
  "outcome V0_1_0 one_plain_input 0 = Inr True
   \<and> fvalue (elems one_plain_input 0) \<noteq> []
   \<and> ''is-valid'' \<notin> set (classList (elems (snd (validate V0_1_0 one_plain_input)) 0))"
  by (simp add: one_plain_input_def model_defs)

subsection \<open>Short-circuit over the fields\<close>

text \<open>The decoration of a failing field.\<close>

lemma rule_step_fail_class:
  assumes "fst (rule_step gen i el s) = Inr False"
  shows "invalidClass (options s) \<in> set (classList (elems (snd (rule_step gen i el s)) i))"
proof -
  from assms have cc: "checkCondition el" and vt: "validationType el"
    by (auto simp: rule_step_fst split: if_splits)
  show ?thesis unfolding rule_step_fail[OF cc vt] case_pair_sum
    by (simp add: showError_frame split: sum.splits)
qed

lemma ui_step_options: "ui_step I s s' \<Longrightarrow> options s' = options s"
  by (simp add: ui_step_def same_inputs_def)

lemma every_rules_fail_class:
  "fst (every cfg (rule_step gen i) s) = Inr False \<Longrightarrow>
   invalidClass (options s) \<in> set (classList (elems (snd (every cfg (rule_step gen i) s)) i))"
proof (induction cfg arbitrary: s)
  case Nil
  then show ?case by simp
next
  case (Cons el rest)
  let ?s1 = "snd (rule_step gen i el s)"
  have o: "options ?s1 = options s" by (rule ui_step_options[OF ui_step_rule_step])
  show ?case
  proof (cases "fst (rule_step gen i el s) = Inr True")
    case True
    then have e: "every (el # rest) (rule_step gen i) s = every rest (rule_step gen i) ?s1"
      by (simp add: every_Cons)
    from Cons.prems have "fst (every rest (rule_step gen i) ?s1) = Inr False" unfolding e .
    from Cons.IH[OF this] show ?thesis unfolding e o .
  next
    case False
    with Cons.prems have r: "fst (rule_step gen i el s) = Inr False"
      by (auto simp: every_Cons split: sum.splits if_splits)
    then have e: "every (el # rest) (rule_step gen i) s = (Inr False, ?s1)"
      by (simp add: every_Cons)
    show ?thesis unfolding e using rule_step_fail_class[OF r] by simp
  qed
qed

lemma outcome_False_group: "outcome gen s i = Inr False \<Longrightarrow> \<exists>g. group (elems s i) = Some g"
  by (cases "group (elems s i)") (auto simp: outcome_eq walk_None split: option.splits if_splits)

lemma validate_field_fail:
  assumes "outcome gen s i = Inr False"
  shows "invalidClass (options s) \<in> set (classList (elems (snd (validate_field gen i s)) i))
       \<and> (\<exists>g b. group (elems s i) = Some g \<and> groups (snd (validate_field gen i s)) g = Some b)"
proof -
  have m: "missing_message gen s = None"
    using assms by (auto simp: outcome_eq split: option.splits)
  from validate_field_defined[OF m, of i] obtain ms where
    e: "validate_field gen i s = every (candidates gen s i) (rule_step gen i) (s\<lparr>messages := ms\<rparr>)"
    by blast
  have r: "fst (every (candidates gen s i) (rule_step gen i) (s\<lparr>messages := ms\<rparr>)) = Inr False"
    using assms by (simp add: outcome_def e)
  from outcome_False_group[OF assms] obtain g where g: "group (elems s i) = Some g" by blast
  then have g': "group (elems (s\<lparr>messages := ms\<rparr>) i) = Some g" by simp
  from every_rules_block[OF r g'] have "\<exists>b. groups (snd (validate_field gen i s)) g = Some b"
    unfolding e by blast
  moreover have "invalidClass (options s) \<in> set (classList (elems (snd (validate_field gen i s)) i))"
    unfolding e using every_rules_fail_class[OF r] by simp
  ultimately show ?thesis using g by blast
qed

lemma every_fields_fail:
  "distinct fs \<Longrightarrow> j \<in> set (visited (passes gen s) fs) \<Longrightarrow> outcome gen s j = Inr False \<Longrightarrow>
   invalidClass (options s) \<in> set (classList (elems (snd (every fs (validate_field gen) s)) j))
   \<and> (\<exists>g b. group (elems s j) = Some g \<and> groups (snd (every fs (validate_field gen) s)) g = Some b)"
proof (induction fs arbitrary: s)
  case Nil
  then show ?case by simp
next
  case (Cons x xs)
  let ?s1 = "snd (validate_field gen x s)"
  from Cons.prems(1) have nx: "x \<notin> set xs" and d: "distinct xs" by simp_all
  have u: "ui_step {x} s ?s1" by (rule validate_field_ui)
  show ?case
  proof (cases "passes gen s x")
    case True
    then have jx: "j \<noteq> x" using Cons.prems(3) by (auto simp: passes_def)
    have v: "visited (passes gen ?s1) xs = visited (passes gen s) xs"
      using nx by (intro visited_cong) (rule passes_after_set)
    have j1: "j \<in> set (visited (passes gen ?s1) xs)"
      using Cons.prems(2) True jx by (simp add: visited_Cons v)
    have o1: "outcome gen ?s1 j = Inr False"
      using Cons.prems(3) jx by (simp add: outcome_after)
    from Cons.IH[OF d j1 o1] show ?thesis
      using True ui_step_options[OF u] ui_step_static(1)[OF u, of j]
      by (simp add: every_fields_pass)
  next
    case False
    then have "j = x" using Cons.prems(2) by (simp add: visited_Cons)
    then show ?thesis using False validate_field_fail[OF Cons.prems(3)]
      by (simp add: every_fields_stop)
  qed
qed


text \<open>The decoration of a visited field that passes.\<close>

lemma applicable_after:
  "x \<noteq> j \<Longrightarrow> applicable gen (snd (validate_field gen x s)) j = applicable gen s j"
  using validate_field_ui[of x s gen] by (intro applicable_same) (simp_all add: ui_step_def)

lemma elems_after: "x \<noteq> j \<Longrightarrow> elems (snd (validate_field gen x s)) j = elems s j"
  using validate_field_ui[of x s gen] by (simp add: ui_step_def)

lemma hideError_hidden: "no_error_shown (groups (snd (hideError (Some g) c s)) g)"
  by (simp add: hideError_def no_error_shown_def split: option.splits)

lemma rule_step_hidden:
  assumes "fst (rule_step gen i el s) = Inr True" "group (elems s i) = Some g"
    "checkCondition el \<or> no_error_shown (groups s g)"
  shows "no_error_shown (groups (snd (rule_step gen i el s)) g)"
proof (cases "checkCondition el")
  case False
  then show ?thesis using assms(3) by (simp add: rule_step_skip)
next
  case cc: True
  have vt: "\<not> validationType el"
    using assms(1,2) cc by (auto simp: rule_step_fst split: if_splits)
  show ?thesis unfolding rule_step_pass[OF cc vt] case_pair_sum_id assms(2)
    using hideError_hidden by (simp split: sum.splits)
qed

lemma every_rules_hidden:
  "fst (every cfg (rule_step gen i) s) = Inr True \<Longrightarrow> group (elems s i) = Some g \<Longrightarrow>
   list_ex checkCondition cfg \<or> no_error_shown (groups s g) \<Longrightarrow>
   no_error_shown (groups (snd (every cfg (rule_step gen i) s)) g)"
proof (induction cfg arbitrary: s)
  case Nil
  then show ?case by simp
next
  case (Cons el rest)
  let ?s1 = "snd (rule_step gen i el s)"
  from Cons.prems(1) have r1: "fst (rule_step gen i el s) = Inr True"
    and r2: "fst (every rest (rule_step gen i) ?s1) = Inr True"
    by (auto simp: every_Cons split: sum.splits if_splits)
  have e: "every (el # rest) (rule_step gen i) s = every rest (rule_step gen i) ?s1"
    using r1 by (simp add: every_Cons)
  have g1: "group (elems ?s1 i) = Some g"
    using ui_step_static(1)[OF ui_step_rule_step, of gen i el s i] Cons.prems(2) by simp
  have d: "list_ex checkCondition rest \<or> no_error_shown (groups ?s1 g)"
  proof (cases "checkCondition el")
    case True
    then show ?thesis using rule_step_hidden[OF r1 Cons.prems(2)] by simp
  next
    case False
    then show ?thesis using Cons.prems(3) by (simp add: rule_step_skip)
  qed
  show ?case unfolding e by (rule Cons.IH[OF r2 g1 d])
qed

lemma validate_field_hidden:
  assumes "outcome gen s x \<noteq> Inr False \<or> group (elems s x) \<noteq> Some g"
    "no_error_shown (groups s g)
     \<or> (passes gen s x \<and> applicable gen s x \<and> group (elems s x) = Some g)"
  shows "no_error_shown (groups (snd (validate_field gen x s)) g)"
proof (cases "group (elems s x) = Some g")
  case False
  then have "groups (snd (validate_field gen x s)) g = groups s g"
    using validate_field_ui[of x s gen] by (simp add: ui_step_def)
  then show ?thesis using assms(2) False by simp
next
  case g: True
  show ?thesis
  proof (cases "missing_message gen s")
    case (Some kc)
    from validate_field_missing[OF Some, of x] obtain m where
      "validate_field gen x s = (Inl (MissingMessage (fst kc)), s\<lparr>messages := m\<rparr>)" by blast
    moreover have "\<not> passes gen s x" by (simp add: passes_def outcome_eq Some)
    ultimately show ?thesis using assms(2) by simp
  next
    case None
    from validate_field_defined[OF None, of x] obtain m where
      e: "validate_field gen x s = every (candidates gen s x) (rule_step gen x) (s\<lparr>messages := m\<rparr>)"
      by blast
    have o: "outcome gen s x = Inr True"
      using assms(1) g by (auto simp: outcome_eq None walk_Some split: if_splits)
    then have r: "fst (every (candidates gen s x) (rule_step gen x) (s\<lparr>messages := m\<rparr>)) = Inr True"
      by (simp add: outcome_def e)
    have g': "group (elems (s\<lparr>messages := m\<rparr>) x) = Some g" using g by simp
    have d: "list_ex checkCondition (candidates gen s x) \<or> no_error_shown (groups (s\<lparr>messages := m\<rparr>) g)"
      using assms(2) by (auto simp: applicable_def)
    show ?thesis unfolding e by (rule every_rules_hidden[OF r g' d])
  qed
qed

lemma every_fields_hidden:
  "distinct fs \<Longrightarrow>
   \<forall>x\<in>set (visited (passes gen s) fs). outcome gen s x = Inr False \<longrightarrow> group (elems s x) \<noteq> Some g \<Longrightarrow>
   no_error_shown (groups s g)
   \<or> (\<exists>j\<in>set (visited (passes gen s) fs). passes gen s j \<and> applicable gen s j \<and> group (elems s j) = Some g) \<Longrightarrow>
   no_error_shown (groups (snd (every fs (validate_field gen) s)) g)"
proof (induction fs arbitrary: s)
  case Nil
  then show ?case by simp
next
  case (Cons x xs)
  let ?s1 = "snd (validate_field gen x s)"
  from Cons.prems(1) have nx: "x \<notin> set xs" and d: "distinct xs" by simp_all
  have st: "\<And>j. j \<in> set xs \<Longrightarrow> outcome gen ?s1 j = outcome gen s j \<and> passes gen ?s1 j = passes gen s j
      \<and> applicable gen ?s1 j = applicable gen s j \<and> elems ?s1 j = elems s j"
    using nx by (metis outcome_after passes_after applicable_after elems_after)
  show ?case
  proof (cases "passes gen s x")
    case True
    have v: "visited (passes gen ?s1) xs = visited (passes gen s) xs"
      using nx by (intro visited_cong) (rule passes_after_set)
    have vs: "set (visited (passes gen s) xs) \<subseteq> set xs" by (rule visited_subset)
    have h1: "\<forall>x'\<in>set (visited (passes gen ?s1) xs).
                outcome gen ?s1 x' = Inr False \<longrightarrow> group (elems ?s1 x') \<noteq> Some g"
      using Cons.prems(2) True st vs unfolding v by (auto simp: visited_Cons)
    have ox: "outcome gen s x \<noteq> Inr False \<or> group (elems s x) \<noteq> Some g"
      using True by (simp add: passes_def)
    have d1: "no_error_shown (groups ?s1 g)
       \<or> (\<exists>j\<in>set (visited (passes gen ?s1) xs).
             passes gen ?s1 j \<and> applicable gen ?s1 j \<and> group (elems ?s1 j) = Some g)"
    proof (cases "no_error_shown (groups s g)
                  \<or> (passes gen s x \<and> applicable gen s x \<and> group (elems s x) = Some g)")
      case a: True
      show ?thesis using validate_field_hidden[OF ox a] by simp
    next
      case False
      with Cons.prems(3) True obtain j where j: "j \<in> set (visited (passes gen s) xs)"
        "passes gen s j" "applicable gen s j" "group (elems s j) = Some g"
        by (auto simp: visited_Cons)
      then have "j \<in> set xs" using vs by auto
      from st[OF this] j have "passes gen ?s1 j \<and> applicable gen ?s1 j \<and> group (elems ?s1 j) = Some g"
        by simp
      then show ?thesis using j(1) unfolding v by blast
    qed
    show ?thesis using True Cons.IH[OF d h1 d1] by (simp add: every_fields_pass)
  next
    case False
    have v: "visited (passes gen s) (x # xs) = [x]" using False by (simp add: visited_Cons)
    have ox: "outcome gen s x \<noteq> Inr False \<or> group (elems s x) \<noteq> Some g"
      using Cons.prems(2) unfolding v by auto
    have a: "no_error_shown (groups s g)
       \<or> (passes gen s x \<and> applicable gen s x \<and> group (elems s x) = Some g)"
      using Cons.prems(3) unfolding v by auto
    show ?thesis using False validate_field_hidden[OF ox a] by (simp add: every_fields_stop)
  qed
qed

lemma every_fields_pass_classes:
  "distinct fs \<Longrightarrow> j \<in> set (visited (passes gen s) fs) \<Longrightarrow> passes gen s j \<Longrightarrow>
   applicable gen s j \<Longrightarrow>
   classList (elems (snd (every fs (validate_field gen) s)) j)
     = pass_classes (fvalue (elems s j)) (classList (elems s j))"
proof (induction fs arbitrary: s)
  case Nil
  then show ?case by simp
next
  case (Cons x xs)
  let ?s1 = "snd (validate_field gen x s)"
  from Cons.prems(1) have nx: "x \<notin> set xs" and d: "distinct xs" by simp_all
  have v: "visited (passes gen ?s1) xs = visited (passes gen s) xs"
    using nx by (intro visited_cong) (rule passes_after_set)
  show ?case
  proof (cases "j = x")
    case True
    have p: "passes gen s x" using Cons.prems(3) True by simp
    have c: "classList (elems ?s1 x) = pass_classes (fvalue (elems s x)) (classList (elems s x))"
      using passing_field_classList[of gen s x] Cons.prems(3,4) True by (simp add: passes_def)
    have "x \<notin> set (visited (passes gen ?s1) xs)"
      using nx visited_subset[of "passes gen ?s1" xs] by auto
    then have "elems (snd (every xs (validate_field gen) ?s1)) x = elems ?s1 x"
      using every_fields_ui[OF d, of gen ?s1] by (simp add: ui_step_def)
    then show ?thesis using p c True by (simp add: every_fields_pass)
  next
    case False
    then have px: "passes gen s x" and jv: "j \<in> set (visited (passes gen s) xs)"
      using Cons.prems(2) by (auto simp: visited_Cons split: if_splits)
    have x: "x \<noteq> j" using False by simp
    have "classList (elems (snd (every xs (validate_field gen) ?s1)) j)
            = pass_classes (fvalue (elems ?s1 j)) (classList (elems ?s1 j))"
      using Cons.IH[OF d, of ?s1] jv Cons.prems(3,4) passes_after[OF x] applicable_after[OF x]
      unfolding v by simp
    then show ?thesis using px by (simp add: every_fields_pass elems_after[OF x])
  qed
qed

text \<open>
  Claim C2, as amended. \<^verbatim>\<open>validate()\<close> visits the fields in list order up to and
  including the first one whose callback does not return \<open>true\<close> (\<open>visited\<close>), and no
  further. An element that is not visited is left exactly as it was, and so is the error
  block of every form group that holds no visited field. The failure side effects go to
  the first failing field and to no other element: the error event is dispatched on it
  alone, it carries the invalid class, and its form group holds an error block. A
  visited field that passes, with a rule that applies to it, gets the pass decoration:
  \<^verbatim>\<open>is-invalid\<close> is cleared, \<^verbatim>\<open>is-valid\<close> is set when its trimmed value is not empty and
  cleared when its value is the empty string, and its form group shows no error, unless
  the failing field sits in the same group. The form is submitted exactly when the
  callback returns \<open>true\<close> on every field.
\<close>

theorem validate_short_circuit:
  assumes "distinct (validated_fields gen s)"
  shows "(\<forall>j. j \<notin> set (visited (passes gen s) (validated_fields gen s))
             \<longrightarrow> elems (snd (validate gen s)) j = elems s j)
       \<and> (\<forall>g. (\<forall>j\<in>set (visited (passes gen s) (validated_fields gen s)). group (elems s j) \<noteq> Some g)
             \<longrightarrow> groups (snd (validate gen s)) g = groups s g)
       \<and> (\<forall>j. events (elems (snd (validate gen s)) j)
               = events (elems s j)
                 @ (if j \<in> set (visited (passes gen s) (validated_fields gen s))
                       \<and> outcome gen s j = Inr False
                    then [error_event gen] else []))
       \<and> (\<forall>j. j \<in> set (visited (passes gen s) (validated_fields gen s))
                \<and> outcome gen s j = Inr False
             \<longrightarrow> invalidClass (options s) \<in> set (classList (elems (snd (validate gen s)) j))
                 \<and> (\<exists>g b. group (elems s j) = Some g \<and> groups (snd (validate gen s)) g = Some b))
       \<and> (\<forall>j. j \<in> set (visited (passes gen s) (validated_fields gen s))
                \<and> passes gen s j \<and> applicable gen s j
             \<longrightarrow> ''is-invalid'' \<notin> set (classList (elems (snd (validate gen s)) j))
                 \<and> (trim (fvalue (elems s j)) \<noteq> []
                      \<longrightarrow> ''is-valid'' \<in> set (classList (elems (snd (validate gen s)) j)))
                 \<and> (fvalue (elems s j) = []
                      \<longrightarrow> ''is-valid'' \<notin> set (classList (elems (snd (validate gen s)) j))))
       \<and> (\<forall>g. (\<forall>j\<in>set (visited (passes gen s) (validated_fields gen s)).
                   outcome gen s j = Inr False \<longrightarrow> group (elems s j) \<noteq> Some g)
                \<and> (\<exists>j\<in>set (visited (passes gen s) (validated_fields gen s)).
                      passes gen s j \<and> applicable gen s j \<and> group (elems s j) = Some g)
             \<longrightarrow> no_error_shown (groups (snd (validate gen s)) g))
       \<and> submits (snd (validate gen s))
           = (if \<forall>j\<in>set (validated_fields gen s). passes gen s j then submits s + 1 else submits s)"
proof -
  let ?fs = "validated_fields gen s"
  let ?vs = "visited (passes gen s) ?fs"
  let ?s0 = "query_fields gen s"
  let ?r = "every ?fs (validate_field gen) ?s0"
  have u0: "ui_step {} s ?s0" by (rule query_fields_ui)
  have a0: "\<And>j. applicable gen ?s0 j = applicable gen s j"
    using u0 by (intro applicable_same) (simp_all add: ui_step_def)
  have u: "ui_step (set ?vs) ?s0 (snd ?r)"
    using every_fields_ui[OF assms, of gen ?s0] by simp
  have ev: "\<And>j. events (elems (snd ?r) j) = events (elems s j)
                 @ (if j \<in> set ?vs \<and> outcome gen s j = Inr False
                    then [error_event gen] else [])"
    using every_fields_events[OF assms, of gen ?s0] by simp
  have t: "(fst ?r = Inr True) = (\<forall>j\<in>set ?fs. passes gen s j)"
    using every_fields_True[OF assms, of gen ?s0] by simp
  have sub: "submits (snd ?r) = submits s"
    using u by (simp add: ui_step_def same_inputs_def)
  have op: "options ?s0 = options s"
    using u0 by (simp add: ui_step_def same_inputs_def)
  have fl: "\<And>j. j \<in> set ?vs \<Longrightarrow> outcome gen s j = Inr False \<Longrightarrow>
      invalidClass (options s) \<in> set (classList (elems (snd ?r) j))
      \<and> (\<exists>g b. group (elems s j) = Some g \<and> groups (snd ?r) g = Some b)"
    using every_fields_fail[OF assms, of _ gen ?s0] op by simp
  have pc: "\<And>j. j \<in> set ?vs \<Longrightarrow> passes gen s j \<Longrightarrow> applicable gen s j \<Longrightarrow>
      classList (elems (snd ?r) j) = pass_classes (fvalue (elems s j)) (classList (elems s j))"
    using every_fields_pass_classes[OF assms, of _ gen ?s0] a0 by simp
  have hd: "\<And>g. (\<forall>j\<in>set ?vs. outcome gen s j = Inr False \<longrightarrow> group (elems s j) \<noteq> Some g) \<Longrightarrow>
      (\<exists>j\<in>set ?vs. passes gen s j \<and> applicable gen s j \<and> group (elems s j) = Some g) \<Longrightarrow>
      no_error_shown (groups (snd ?r) g)"
    using every_fields_hidden[OF assms, of gen ?s0] a0 by simp
  have tr: "\<And>v. trim v \<noteq> [] \<Longrightarrow> v \<noteq> []" by (auto simp: trim_def)
  have 1: "\<forall>j. j \<notin> set ?vs \<longrightarrow> elems (snd (validate gen s)) j = elems s j"
    using u by (simp add: snd_validate Let_def ui_step_def)
  have 2: "\<forall>g. (\<forall>j\<in>set ?vs. group (elems s j) \<noteq> Some g)
             \<longrightarrow> groups (snd (validate gen s)) g = groups s g"
    using u by (simp add: snd_validate Let_def ui_step_def)
  have 3: "\<forall>j. events (elems (snd (validate gen s)) j)
               = events (elems s j)
                 @ (if j \<in> set ?vs \<and> outcome gen s j = Inr False
                    then [error_event gen] else [])"
    using ev by (simp add: snd_validate Let_def)
  have 4: "submits (snd (validate gen s))
           = (if \<forall>j\<in>set ?fs. passes gen s j then submits s + 1 else submits s)"
    using t sub by (simp add: snd_validate Let_def)
  have 5: "\<forall>j. j \<in> set ?vs \<and> outcome gen s j = Inr False
             \<longrightarrow> invalidClass (options s) \<in> set (classList (elems (snd (validate gen s)) j))
                 \<and> (\<exists>g b. group (elems s j) = Some g \<and> groups (snd (validate gen s)) g = Some b)"
    using fl by (simp add: snd_validate Let_def)
  have 6: "\<forall>j. j \<in> set ?vs \<and> passes gen s j \<and> applicable gen s j
             \<longrightarrow> ''is-invalid'' \<notin> set (classList (elems (snd (validate gen s)) j))
                 \<and> (trim (fvalue (elems s j)) \<noteq> []
                      \<longrightarrow> ''is-valid'' \<in> set (classList (elems (snd (validate gen s)) j)))
                 \<and> (fvalue (elems s j) = []
                      \<longrightarrow> ''is-valid'' \<notin> set (classList (elems (snd (validate gen s)) j)))"
  proof (intro allI impI)
    fix j assume h: "j \<in> set ?vs \<and> passes gen s j \<and> applicable gen s j"
    then have c: "classList (elems (snd (validate gen s)) j)
                    = pass_classes (fvalue (elems s j)) (classList (elems s j))"
      using pc[of j] by (simp add: snd_validate Let_def)
    show "''is-invalid'' \<notin> set (classList (elems (snd (validate gen s)) j))
                 \<and> (trim (fvalue (elems s j)) \<noteq> []
                      \<longrightarrow> ''is-valid'' \<in> set (classList (elems (snd (validate gen s)) j)))
                 \<and> (fvalue (elems s j) = []
                      \<longrightarrow> ''is-valid'' \<notin> set (classList (elems (snd (validate gen s)) j)))"
      unfolding c using tr[of "fvalue (elems s j)"] by (auto simp: set_pass_classes)
  qed
  have 7: "\<forall>g. (\<forall>j\<in>set ?vs. outcome gen s j = Inr False \<longrightarrow> group (elems s j) \<noteq> Some g)
                \<and> (\<exists>j\<in>set ?vs. passes gen s j \<and> applicable gen s j \<and> group (elems s j) = Some g)
             \<longrightarrow> no_error_shown (groups (snd (validate gen s)) g)"
    using hd by (simp add: snd_validate Let_def)
  show ?thesis using 1 2 3 4 5 6 7 by blast
qed


text \<open>
  On \<open>three_fields\<close>: the first field passes, gets \<^verbatim>\<open>is-valid\<close> and has its error block
  hidden; the second fails and gets the event and the invalid class; the third is
  untouched; the form is not submitted.
\<close>

theorem validate_short_circuit_witness:
  "distinct (validated_fields V0_1_0 three_fields)
   \<and> elems (snd (validate V0_1_0 three_fields)) 2 = elems three_fields 2
   \<and> groups (snd (validate V0_1_0 three_fields)) 2 = groups three_fields 2
   \<and> events (elems (snd (validate V0_1_0 three_fields)) 1) = [''validate-light:error'']
   \<and> ''is-invalid'' \<in> set (classList (elems (snd (validate V0_1_0 three_fields)) 1))
   \<and> events (elems (snd (validate V0_1_0 three_fields)) 0) = []
   \<and> ''is-valid'' \<in> set (classList (elems (snd (validate V0_1_0 three_fields)) 0))
   \<and> no_error_shown (groups (snd (validate V0_1_0 three_fields)) 0)
   \<and> submits (snd (validate V0_1_0 three_fields)) = 0"
proof -
  let ?s' = "snd (validate V0_1_0 three_fields)"
  have d: "distinct (validated_fields V0_1_0 three_fields)"
    by (simp add: validated_fields_def three_fields_def)
  have p: "passes V0_1_0 three_fields 0" "\<not> passes V0_1_0 three_fields 1"
    by (simp_all add: model_defs three_fields_def)
  have f: "validated_fields V0_1_0 three_fields = [0, 1, 2]"
    by (simp add: validated_fields_def three_fields_def)
  have v: "visited (passes V0_1_0 three_fields) (validated_fields V0_1_0 three_fields) = [0, 1]"
    using p by (simp add: f visited_def)
  have o: "outcome V0_1_0 three_fields 1 = Inr False" "outcome V0_1_0 three_fields 0 \<noteq> Inr False"
    by (simp_all add: model_defs three_fields_def)
  have a: "applicable V0_1_0 three_fields 0"
    by (simp add: applicable_def candidates_def model_defs three_fields_def)
  have g: "group (elems three_fields 0) = Some 0" "group (elems three_fields 1) = Some 1"
    by (simp_all add: three_fields_def required_input_def)
  have e: "events (elems three_fields 0) = []" "events (elems three_fields 1) = []"
    "submits three_fields = 0" "invalidClass (options three_fields) = ''is-invalid''"
    "trim (fvalue (elems three_fields 0)) \<noteq> []"
    by (simp_all add: three_fields_def required_input_def text_input_def bare_form_def
        defaultParams_def trim_def is_ws_def)
  note t = validate_short_circuit[OF d, unfolded v]
  have w1: "elems ?s' 2 = elems three_fields 2" using t by simp
  have w2: "groups ?s' 2 = groups three_fields 2" using t g by simp
  have w3: "events (elems ?s' 1) = [''validate-light:error'']"
    using t o e by (simp add: error_event_def)
  have w4: "''is-invalid'' \<in> set (classList (elems ?s' 1))" using t o e by simp
  have w5: "events (elems ?s' 0) = []" using t o e by simp
  have w6: "''is-valid'' \<in> set (classList (elems ?s' 0))" using t p a e by simp
  have w7: "no_error_shown (groups ?s' 0)"
  proof -
    have "(\<forall>j\<in>set [0, 1]. outcome V0_1_0 three_fields j = Inr False \<longrightarrow> group (elems three_fields j) \<noteq> Some 0)
          \<and> (\<exists>j\<in>set [0, 1]. passes V0_1_0 three_fields j \<and> applicable V0_1_0 three_fields j
                \<and> group (elems three_fields j) = Some 0)"
      using p a g o by simp
    then show ?thesis using t by blast
  qed
  have w8: "submits ?s' = 0" using t p e by (simp add: f)
  show ?thesis using d w1 w2 w3 w4 w5 w6 w7 w8 by blast
qed

text \<open>
  Claim C2 as stated fails: on \<open>three_fields\<close> the first failing field is field 1, and
  yet field 0, which passes, has its class list changed by the call.
\<close>

theorem passing_field_decorated_counterexample:
  "outcome V0_1_0 three_fields 0 = Inr True \<and> outcome V0_1_0 three_fields 1 = Inr False
   \<and> classList (elems three_fields 0) = []
   \<and> classList (elems (snd (validate V0_1_0 three_fields)) 0) = [''is-valid'']"
  by (simp add: model_defs three_fields_def)

subsection \<open>The first failing rule wins\<close>

lemma find_failing_append:
  "list_ex failing xs \<Longrightarrow> find failing (xs @ ys) = find failing xs"
  by (induction xs) auto

lemma find_failing_None: "(find failing cfg = None) = (\<not> list_ex failing cfg)"
  by (induction cfg) auto

text \<open>The candidate list, entry by entry.\<close>

lemma empty_isEmpty: "isEmpty (empty v) = (trim v = [])"
  by (simp add: empty_def Let_def)

lemma regExp_hasError: "hasError (regExp v r) = (trim v \<noteq> [] \<and> \<not> r (trim v))"
  by (simp add: regExp_def empty_def Let_def)

lemma custom_rule_unfold:
  "custom_rule gen f m kc =
     \<lparr>checkCondition = (dataConfig_of gen f (fst kc) \<noteq> None),
      validationType =
        (case dataConfig_of gen f (fst kc) of
           None \<Rightarrow> False
         | Some c \<Rightarrow> \<not> isEmpty (snd kc (fvalue f) f c) \<and> hasError (snd kc (fvalue f) f c)),
      msg = m\<rparr>"
  by (auto simp: custom_rule_def split: option.splits)

lemma candidates_unfold:
  "candidates gen s i =
     (let f = elems s i; v = trim (fvalue f) in
      [\<lparr>checkCondition = (ftype f \<noteq> ''checkbox'' \<and> hasAttribute f ''required''),
        validationType = (v = []),
        msg = messages s ''required''\<rparr>,
       \<lparr>checkCondition = (ftype f = ''email''),
        validationType = (v \<noteq> [] \<and> \<not> matches email_re v),
        msg = messages s ''email''\<rparr>,
       \<lparr>checkCondition = (ftype f = ''tel''),
        validationType = (v \<noteq> [] \<and> \<not> matches tel_re v),
        msg = messages s ''tel''\<rparr>,
       \<lparr>checkCondition = (ftype f = ''checkbox'' \<and> hasAttribute f ''required''),
        validationType = (\<not> checked f),
        msg = messages s ''required''\<rparr>,
       \<lparr>checkCondition = (ftype f = ''radio'' \<and> hasAttribute f ''required''),
        validationType = (\<not> querySelector_checked s (field_name f)),
        msg = messages s ''required''\<rparr>]
      @ map (\<lambda>kc.
           \<lparr>checkCondition = (dataConfig_of gen f (fst kc) \<noteq> None),
            validationType =
              (case dataConfig_of gen f (fst kc) of
                 None \<Rightarrow> False
               | Some c \<Rightarrow> \<not> isEmpty (snd kc (fvalue f) f c) \<and> hasError (snd kc (fvalue f) f c)),
            msg = form_message gen s (fst kc)\<rparr>) (customChecks s))"
  by (simp add: candidates_def validationConfig_def custom_rule_unfold empty_isEmpty
      email_def tel_def regExp_hasError Let_def)

text \<open>
  Claim C1, as amended. For a field inside a form group, the candidate list is the five
  built-in entries (required, email, tel, required checkbox, required radio), then one
  entry per registered rule in registry order, as spelled out below. When a registered
  rule has no usable message on the form, the loop that builds the list throws the
  missing-message error for the first such rule and nothing is reported, even when a
  built-in entry fails. Otherwise the walk stops at the first candidate with
  \<^verbatim>\<open>checkCondition\<close> and \<^verbatim>\<open>validationType\<close> both true: the field fails, one error event
  is dispatched and the error block shows the message of that candidate; without such a
  candidate the field passes and no event is dispatched. When a built-in entry fails,
  the reported candidate is the first failing built-in entry, whatever the custom rules
  say.
\<close>

theorem first_failing_rule_wins:
  assumes "group (elems s i) = Some g"
  shows "candidates gen s i =
     (let f = elems s i; v = trim (fvalue f) in
      [\<lparr>checkCondition = (ftype f \<noteq> ''checkbox'' \<and> hasAttribute f ''required''),
        validationType = (v = []),
        msg = messages s ''required''\<rparr>,
       \<lparr>checkCondition = (ftype f = ''email''),
        validationType = (v \<noteq> [] \<and> \<not> matches email_re v),
        msg = messages s ''email''\<rparr>,
       \<lparr>checkCondition = (ftype f = ''tel''),
        validationType = (v \<noteq> [] \<and> \<not> matches tel_re v),
        msg = messages s ''tel''\<rparr>,
       \<lparr>checkCondition = (ftype f = ''checkbox'' \<and> hasAttribute f ''required''),
        validationType = (\<not> checked f),
        msg = messages s ''required''\<rparr>,
       \<lparr>checkCondition = (ftype f = ''radio'' \<and> hasAttribute f ''required''),
        validationType = (\<not> querySelector_checked s (field_name f)),
        msg = messages s ''required''\<rparr>]
      @ map (\<lambda>kc.
           \<lparr>checkCondition = (dataConfig_of gen f (fst kc) \<noteq> None),
            validationType =
              (case dataConfig_of gen f (fst kc) of
                 None \<Rightarrow> False
               | Some c \<Rightarrow> \<not> isEmpty (snd kc (fvalue f) f c) \<and> hasError (snd kc (fvalue f) f c)),
            msg = form_message gen s (fst kc)\<rparr>) (customChecks s))
       \<and> fst (custom_rules gen (elems s i) (customChecks s) (validationConfig s (elems s i)) s)
           = (case missing_message gen s of
                Some kc \<Rightarrow> Inl (MissingMessage (fst kc))
              | None \<Rightarrow> Inr (candidates gen s i))
       \<and> (case missing_message gen s of
            Some kc \<Rightarrow> outcome gen s i = Inl (MissingMessage (fst kc))
                      \<and> elems (snd (validate_field gen i s)) = elems s
                      \<and> groups (snd (validate_field gen i s)) = groups s
          | None \<Rightarrow>
             (case find failing (candidates gen s i) of
                None \<Rightarrow> outcome gen s i = Inr True
                         \<and> events (elems (snd (validate_field gen i s)) i) = events (elems s i)
              | Some el \<Rightarrow> outcome gen s i = Inr False
                         \<and> events (elems (snd (validate_field gen i s)) i)
                             = events (elems s i) @ [error_event gen]
                         \<and> (\<exists>b. groups (snd (validate_field gen i s)) g = Some b
                                 \<and> innerHTML b = ''<span>'' @ to_string (msg el) @ ''</span>'')))
       \<and> (list_ex failing (validationConfig s (elems s i))
            \<longrightarrow> find failing (candidates gen s i) = find failing (validationConfig s (elems s i)))"
proof -
  have 0: "candidates gen s i =
     (let f = elems s i; v = trim (fvalue f) in
      [\<lparr>checkCondition = (ftype f \<noteq> ''checkbox'' \<and> hasAttribute f ''required''),
        validationType = (v = []),
        msg = messages s ''required''\<rparr>,
       \<lparr>checkCondition = (ftype f = ''email''),
        validationType = (v \<noteq> [] \<and> \<not> matches email_re v),
        msg = messages s ''email''\<rparr>,
       \<lparr>checkCondition = (ftype f = ''tel''),
        validationType = (v \<noteq> [] \<and> \<not> matches tel_re v),
        msg = messages s ''tel''\<rparr>,
       \<lparr>checkCondition = (ftype f = ''checkbox'' \<and> hasAttribute f ''required''),
        validationType = (\<not> checked f),
        msg = messages s ''required''\<rparr>,
       \<lparr>checkCondition = (ftype f = ''radio'' \<and> hasAttribute f ''required''),
        validationType = (\<not> querySelector_checked s (field_name f)),
        msg = messages s ''required''\<rparr>]
      @ map (\<lambda>kc.
           \<lparr>checkCondition = (dataConfig_of gen f (fst kc) \<noteq> None),
            validationType =
              (case dataConfig_of gen f (fst kc) of
                 None \<Rightarrow> False
               | Some c \<Rightarrow> \<not> isEmpty (snd kc (fvalue f) f c) \<and> hasError (snd kc (fvalue f) f c)),
            msg = form_message gen s (fst kc)\<rparr>) (customChecks s))"
    by (rule candidates_unfold)
  have 1: "fst (custom_rules gen (elems s i) (customChecks s) (validationConfig s (elems s i)) s)
           = (case missing_message gen s of
                Some kc \<Rightarrow> Inl (MissingMessage (fst kc))
              | None \<Rightarrow> Inr (candidates gen s i))"
    by (rule custom_rules_fst')
  have ev: "events (elems (snd (validate_field gen i s)) i)
     = events (elems s i) @ (if outcome gen s i = Inr False then [error_event gen] else [])"
    by (rule validate_field_events)
  have 2: "(case missing_message gen s of
            Some kc \<Rightarrow> outcome gen s i = Inl (MissingMessage (fst kc))
                      \<and> elems (snd (validate_field gen i s)) = elems s
                      \<and> groups (snd (validate_field gen i s)) = groups s
          | None \<Rightarrow>
             (case find failing (candidates gen s i) of
                None \<Rightarrow> outcome gen s i = Inr True
                         \<and> events (elems (snd (validate_field gen i s)) i) = events (elems s i)
              | Some el \<Rightarrow> outcome gen s i = Inr False
                         \<and> events (elems (snd (validate_field gen i s)) i)
                             = events (elems s i) @ [error_event gen]
                         \<and> (\<exists>b. groups (snd (validate_field gen i s)) g = Some b
                                 \<and> innerHTML b = ''<span>'' @ to_string (msg el) @ ''</span>'')))"
  proof (cases "missing_message gen s")
    case (Some kc)
    from validate_field_missing[OF Some, of i] obtain m where
      "validate_field gen i s = (Inl (MissingMessage (fst kc)), s\<lparr>messages := m\<rparr>)" by blast
    then show ?thesis using Some by (simp add: outcome_def)
  next
    case mn: None
    have o: "outcome gen s i = (if list_ex failing (candidates gen s i) then Inr False else Inr True)"
      by (simp add: outcome_eq mn assms walk_Some)
    show ?thesis
    proof (cases "find failing (candidates gen s i)")
      case None
      then have "\<not> list_ex failing (candidates gen s i)" by (simp add: find_failing_None)
      then show ?thesis using None mn o ev by simp
    next
      case (Some el)
      then have f: "list_ex failing (candidates gen s i)"
        using find_failing_None[of "candidates gen s i"] by auto
      then have of': "outcome gen s i = Inr False" using o by simp
      from validate_field_defined[OF mn, of i] obtain m where
        e: "validate_field gen i s = every (candidates gen s i) (rule_step gen i) (s\<lparr>messages := m\<rparr>)"
        by blast
      have r: "fst (every (candidates gen s i) (rule_step gen i) (s\<lparr>messages := m\<rparr>)) = Inr False"
        using of' by (simp add: outcome_def e)
      have g: "group (elems (s\<lparr>messages := m\<rparr>) i) = Some g" using assms by simp
      from every_rules_block[OF r g] Some
      have "\<exists>b. groups (snd (validate_field gen i s)) g = Some b
                \<and> innerHTML b = ''<span>'' @ to_string (msg el) @ ''</span>''"
        unfolding e by auto
      then show ?thesis using Some mn of' ev by simp
    qed
  qed
  have 3: "list_ex failing (validationConfig s (elems s i))
            \<longrightarrow> find failing (candidates gen s i) = find failing (validationConfig s (elems s i))"
    by (simp add: candidates_def find_failing_append)
  show ?thesis using 0 1 2 3 by blast
qed

text \<open>
  On \<open>email_foo_form\<close>. Field 0 is the scenario of the claim: the verdict is \<open>false\<close> and
  the error block shows the message of \<^verbatim>\<open>required\<close>. On field 1 no built-in entry fails
  and the custom rule does: the error block shows the message of \<^verbatim>\<open>foo\<close>, in the
  generation that reads attributes and in the one that reads the dataset.
\<close>

theorem first_failing_rule_wins_witness:
  "missing_message V0_1_0 (email_foo_form V0_1_0) = None
   \<and> list_ex failing (validationConfig (email_foo_form V0_1_0) (elems (email_foo_form V0_1_0) 0))
   \<and> outcome V0_1_0 (email_foo_form V0_1_0) 0 = Inr False
   \<and> (\<exists>b. groups (snd (validate_field V0_1_0 0 (email_foo_form V0_1_0))) 0 = Some b
          \<and> innerHTML b = ''<span>Required</span>'')
   \<and> \<not> list_ex failing (validationConfig (email_foo_form V0_1_0) (elems (email_foo_form V0_1_0) 1))
   \<and> outcome V0_1_0 (email_foo_form V0_1_0) 1 = Inr False
   \<and> (\<exists>b. groups (snd (validate_field V0_1_0 1 (email_foo_form V0_1_0))) 1 = Some b
          \<and> innerHTML b = ''<span>Foo</span>'')
   \<and> (\<exists>b. groups (snd (validate_field V1_0_0 1 (email_foo_form V1_0_0))) 1 = Some b
          \<and> innerHTML b = ''<span>Foo</span>'')"
proof -
  have m: "missing_message V0_1_0 (email_foo_form V0_1_0) = None"
    by (simp add: scenario_defs model_defs)
  have m1: "missing_message V1_0_0 (email_foo_form V1_0_0) = None"
    by (simp add: scenario_defs model_defs)
  have g0: "group (elems (email_foo_form V0_1_0) 0) = Some 0"
    by (simp add: scenario_defs model_defs)
  have g1: "group (elems (email_foo_form V0_1_0) 1) = Some 1"
    by (simp add: scenario_defs model_defs)
  have g2: "group (elems (email_foo_form V1_0_0) 1) = Some 1"
    by (simp add: scenario_defs model_defs)
  have l0: "list_ex failing (validationConfig (email_foo_form V0_1_0) (elems (email_foo_form V0_1_0) 0))"
    by (simp add: scenario_defs model_defs)
  have l1: "\<not> list_ex failing (validationConfig (email_foo_form V0_1_0) (elems (email_foo_form V0_1_0) 1))"
    by (simp add: scenario_defs model_defs)
  have f0: "find failing (candidates V0_1_0 (email_foo_form V0_1_0) 0)
             = Some \<lparr>checkCondition = True, validationType = True, msg = MStr ''Required''\<rparr>"
    by (simp add: scenario_defs model_defs)
  have f1: "find failing (candidates V0_1_0 (email_foo_form V0_1_0) 1)
             = Some \<lparr>checkCondition = True, validationType = True, msg = MStr ''Foo''\<rparr>"
    by (simp add: scenario_defs model_defs)
  have f2: "find failing (candidates V1_0_0 (email_foo_form V1_0_0) 1)
             = Some \<lparr>checkCondition = True, validationType = True, msg = MStr ''Foo''\<rparr>"
    by (simp add: scenario_defs model_defs)
  have w0: "outcome V0_1_0 (email_foo_form V0_1_0) 0 = Inr False
     \<and> (\<exists>b. groups (snd (validate_field V0_1_0 0 (email_foo_form V0_1_0))) 0 = Some b
          \<and> innerHTML b = ''<span>Required</span>'')"
    using first_failing_rule_wins[OF g0, of V0_1_0, THEN conjunct2, THEN conjunct2, THEN conjunct1]
    unfolding m f0 by simp
  have w1: "outcome V0_1_0 (email_foo_form V0_1_0) 1 = Inr False
     \<and> (\<exists>b. groups (snd (validate_field V0_1_0 1 (email_foo_form V0_1_0))) 1 = Some b
          \<and> innerHTML b = ''<span>Foo</span>'')"
    using first_failing_rule_wins[OF g1, of V0_1_0, THEN conjunct2, THEN conjunct2, THEN conjunct1]
    unfolding m f1 by simp
  have w2: "\<exists>b. groups (snd (validate_field V1_0_0 1 (email_foo_form V1_0_0))) 1 = Some b
          \<and> innerHTML b = ''<span>Foo</span>''"
    using first_failing_rule_wins[OF g2, of V1_0_0, THEN conjunct2, THEN conjunct2, THEN conjunct1]
    unfolding m1 f2 by simp
  show ?thesis using m l0 l1 w0 w1 w2 by blast
qed

text \<open>
  Claim C1 as stated fails: on \<open>messageless_rule_form\<close> the required entry of field 0 fails
  and the rule \<^verbatim>\<open>foo\<close> is active on the field, yet the callback throws the
  missing-message error and no error block is shown and no event dispatched.
\<close>

theorem messageless_rule_counterexample:
  "list_ex failing (validationConfig messageless_rule_form (elems messageless_rule_form 0))
   \<and> dataConfig_of V0_1_0 (elems messageless_rule_form 0) ''foo'' = Some [''x'']
   \<and> outcome V0_1_0 messageless_rule_form 0 = Inl (MissingMessage ''foo'')
   \<and> groups (snd (validate_field V0_1_0 0 messageless_rule_form)) 0 = None
   \<and> events (elems (snd (validate_field V0_1_0 0 messageless_rule_form)) 0) = []"
  by (simp add: scenario_defs model_defs)

subsection \<open>Blank optional fields\<close>

lemma regExp_isEmpty: "isEmpty (regExp v r) = (trim v = [])"
  by (cases "trim v = []") (simp_all add: regExp_def empty_def Let_def)

lemma function_check_isEmpty: "isEmpty (function_check f v field c) = (trim v = [])"
  by (simp add: function_check_def empty_def Let_def)

lemma installed_isEmpty:
  "installed cc \<Longrightarrow> isEmpty (cc v f c) = (trim v = [])"
  unfolding installed_def
  by (elim disjE exE) (simp_all add: regExp_check_def regExp_isEmpty function_check_isEmpty)

lemma blank_no_error: "trim v = [] \<Longrightarrow> \<not> hasError (regExp v r)"
  by (simp add: regExp_def empty_def Let_def)

lemma setFieldCheck_installed:
  assumes "\<forall>kc\<in>set (customChecks s). installed (snd kc)"
  shows "\<forall>kc\<in>set (customChecks (snd (setFieldCheck name check s))). installed (snd kc)"
proof (cases name)
  case (JStr n)
  show ?thesis
  proof (cases check)
    case (JRegExp r)
    have "installed (regExp_check r)" by (auto simp: installed_def)
    then show ?thesis using assms set_obj_set[of n "regExp_check r" "customChecks s"]
      by (auto simp: JStr JRegExp setFieldCheck_def)
  next
    case (JFunction f)
    have "installed (function_check f)" by (auto simp: installed_def)
    then show ?thesis using assms set_obj_set[of n "function_check f" "customChecks s"]
      by (auto simp: JStr JFunction setFieldCheck_def)
  qed (use assms in \<open>simp_all add: JStr setFieldCheck_def\<close>)
qed (use assms in \<open>simp_all add: setFieldCheck_def\<close>)

lemma builder_installed: "\<forall>kc\<in>set (customChecks (builder gen p s)). installed (snd kc)"
  by (simp add: builder_def)

lemma validate_installed:
  "customChecks (snd (validate gen s)) = customChecks s"
  using every_fields_ui_all[of "validated_fields gen s" "query_fields gen s" gen]
  by (simp add: snd_validate Let_def ui_step_def same_inputs_def)

lemma blank_optional_no_failing:
  assumes "\<not> hasAttribute (elems s i) ''required''" "trim (fvalue (elems s i)) = []"
    "\<forall>kc\<in>set (customChecks s). installed (snd kc)"
  shows "\<not> list_ex failing (candidates gen s i)"
proof -
  have b: "\<not> list_ex failing (validationConfig s (elems s i))"
    using assms(1,2) by (simp add: validationConfig_def failing_def email_def tel_def blank_no_error)
  have c: "\<not> failing (custom_rule gen (elems s i) m kc)" if "kc \<in> set (customChecks s)" for m kc
    using that assms(2,3) installed_isEmpty[of "snd kc"]
    by (auto simp: failing_def custom_rule_def split: option.splits)
  show ?thesis using b c by (auto simp: candidates_def list_ex_iff)
qed

text \<open>
  Claim C8, as amended. For a field without \<^verbatim>\<open>required\<close> whose trimmed value is empty, in
  a registry filled by \<^verbatim>\<open>setFieldCheck\<close>: no candidate fails, whatever its type and its
  custom rules, so the verdict is never \<open>false\<close> and no error event is dispatched. The
  verdict is \<open>true\<close> when every registered rule has a usable message on the form and the
  field sits in a form group or has no applicable rule. It is the missing-message error
  when a registered rule lacks its message, and a \<^verbatim>\<open>TypeError\<close> when all messages are
  there, a rule applies and the field has no form group.
\<close>

theorem blank_optional_passes:
  assumes "\<not> hasAttribute (elems s i) ''required''" "trim (fvalue (elems s i)) = []"
    "\<forall>kc\<in>set (customChecks s). installed (snd kc)"
  shows "\<not> list_ex failing (candidates gen s i)
       \<and> outcome gen s i \<noteq> Inr False
       \<and> outcome gen s i
           = (case missing_message gen s of
                Some kc \<Rightarrow> Inl (MissingMessage (fst kc))
              | None \<Rightarrow> if group (elems s i) = None \<and> applicable gen s i
                        then Inl TypeError else Inr True)
       \<and> events (elems (snd (validate_field gen i s)) i) = events (elems s i)"
proof -
  have n: "\<not> list_ex failing (candidates gen s i)" by (rule blank_optional_no_failing[OF assms])
  have o: "outcome gen s i
           = (case missing_message gen s of
                Some kc \<Rightarrow> Inl (MissingMessage (fst kc))
              | None \<Rightarrow> if group (elems s i) = None \<and> applicable gen s i
                        then Inl TypeError else Inr True)"
    using n by (cases "group (elems s i)")
      (auto simp: outcome_eq walk_Some walk_None applicable_def split: option.splits)
  have f: "outcome gen s i \<noteq> Inr False"
    unfolding o by (simp split: option.splits)
  have e: "events (elems (snd (validate_field gen i s)) i) = events (elems s i)"
    using f by (simp add: validate_field_events)
  show ?thesis using n o f e by blast
qed

text \<open>On \<open>optional_tel_form\<close>: the tel rule and the rule \<^verbatim>\<open>foo\<close> both apply, and the field passes.\<close>

theorem blank_optional_passes_witness:
  "\<not> hasAttribute (elems optional_tel_form 0) ''required''
   \<and> trim (fvalue (elems optional_tel_form 0)) = []
   \<and> list_all (\<lambda>kc. installed (snd kc)) (customChecks optional_tel_form)
   \<and> applicable V0_1_0 optional_tel_form 0
   \<and> outcome V0_1_0 optional_tel_form 0 = Inr True"
proof -
  have r: "\<not> hasAttribute (elems optional_tel_form 0) ''required''"
    by (simp add: optional_tel_form_def scenario_defs model_defs)
  have t: "trim (fvalue (elems optional_tel_form 0)) = []"
    by (simp add: optional_tel_form_def scenario_defs model_defs)
  have i: "\<forall>kc\<in>set (customChecks optional_tel_form). installed (snd kc)"
    unfolding optional_tel_form_def by (intro setFieldCheck_installed builder_installed)
  have a: "applicable V0_1_0 optional_tel_form 0"
    by (simp add: optional_tel_form_def scenario_defs model_defs)
  have m: "missing_message V0_1_0 optional_tel_form = None"
    by (simp add: optional_tel_form_def scenario_defs model_defs)
  have g: "group (elems optional_tel_form 0) \<noteq> None"
    by (simp add: optional_tel_form_def scenario_defs model_defs)
  from blank_optional_passes[OF r t i, of V0_1_0] m g have "outcome V0_1_0 optional_tel_form 0 = Inr True"
    by simp
  then show ?thesis using r t i a by (simp add: list_all_iff)
qed

text \<open>
  Claim C8 as stated fails: the blank optional field of \<open>unused_rule_form\<close> gets the
  missing-message error, and the one of \<open>ungrouped_tel_form\<close> a \<^verbatim>\<open>TypeError\<close>.
\<close>

theorem blank_optional_throws_counterexample:
  "\<not> hasAttribute (elems unused_rule_form 0) ''required''
   \<and> trim (fvalue (elems unused_rule_form 0)) = []
   \<and> outcome V0_1_0 unused_rule_form 0 = Inl (MissingMessage ''foo'')
   \<and> \<not> hasAttribute (elems ungrouped_tel_form 0) ''required''
   \<and> trim (fvalue (elems ungrouped_tel_form 0)) = []
   \<and> outcome V0_1_0 ungrouped_tel_form 0 = Inl TypeError"
  by (simp add: unused_rule_form_def ungrouped_tel_form_def optional_tel_form_def
      scenario_defs model_defs)

subsection \<open>The missing-message error\<close>

lemma walk_not_missing: "walk g cfg \<noteq> Inl (MissingMessage k)"
  by (induction cfg) auto

lemma every_fields_no_missing:
  "missing_message gen s = None \<Longrightarrow> fst (every fs (validate_field gen) s) \<noteq> Inl (MissingMessage k)"
proof (induction fs arbitrary: s)
  case Nil
  show ?case by simp
next
  case (Cons x xs)
  let ?s1 = "snd (validate_field gen x s)"
  have o: "outcome gen s x \<noteq> Inl (MissingMessage k)"
    using Cons.prems by (simp add: outcome_eq walk_not_missing)
  have "missing_message gen ?s1 = missing_message gen s"
    using validate_field_ui[of x s gen] by (intro missing_message_same) (simp add: ui_step_def)
  then have "fst (every xs (validate_field gen) ?s1) \<noteq> Inl (MissingMessage k)"
    using Cons.IH[of ?s1] Cons.prems by simp
  then show ?case using o
    by (cases "passes gen s x") (simp_all add: every_fields_pass every_fields_stop)
qed

lemma query_fields_missing [simp]: "missing_message gen (query_fields gen s) = missing_message gen s"
  using query_fields_ui[of s gen] by (intro missing_message_same) (simp add: ui_step_def)

lemma validate_missing:
  assumes "missing_message gen s = Some kc" "validated_fields gen s = x # xs"
  shows "\<exists>m. validate gen s = (Inl (MissingMessage (fst kc)), (query_fields gen s)\<lparr>messages := m\<rparr>)"
proof -
  have mm: "missing_message gen (query_fields gen s) = Some kc" using assms(1) by simp
  from validate_field_missing[OF mm, of x] obtain m where
    v: "validate_field gen x (query_fields gen s)
          = (Inl (MissingMessage (fst kc)), (query_fields gen s)\<lparr>messages := m\<rparr>)" by blast
  have "every (x # xs) (validate_field gen) (query_fields gen s)
          = (Inl (MissingMessage (fst kc)), (query_fields gen s)\<lparr>messages := m\<rparr>)"
    by (simp add: every_Cons v)
  then show ?thesis unfolding validate_every assms(2) by auto
qed

text \<open>
  Claim C6, as amended. \<^verbatim>\<open>validate()\<close> throws the missing-message error exactly when it
  has at least one field to visit and some registered rule has no usable message on the
  form, whether or not a field carries \<^verbatim>\<open>data-validate-<name>\<close>. The error names the first
  such rule of the registry; it is thrown in the callback of the first field, before
  any element, error block or timer is touched, and the form is not submitted.
\<close>

theorem missing_message_raised:
  "((\<exists>k. fst (validate gen s) = Inl (MissingMessage k))
      = (validated_fields gen s \<noteq> [] \<and> missing_message gen s \<noteq> None))
   \<and> (validated_fields gen s \<noteq> [] \<longrightarrow>
        (case missing_message gen s of
           None \<Rightarrow> True
         | Some kc \<Rightarrow> fst (validate gen s) = Inl (MissingMessage (fst kc))
                      \<and> elems (snd (validate gen s)) = elems s
                      \<and> groups (snd (validate gen s)) = groups s
                      \<and> timers (snd (validate gen s)) = timers s
                      \<and> submits (snd (validate gen s)) = submits s))"
proof -
  have a: "(\<exists>k. fst (validate gen s) = Inl (MissingMessage k))
      = (validated_fields gen s \<noteq> [] \<and> missing_message gen s \<noteq> None)"
  proof (cases "missing_message gen s")
    case None
    have "fst (every (validated_fields gen s) (validate_field gen) (query_fields gen s))
            \<noteq> Inl (MissingMessage k)" for k
      by (rule every_fields_no_missing) (simp add: None)
    then show ?thesis using None by (auto simp: fst_validate split: sum.splits)
  next
    case (Some kc)
    show ?thesis
    proof (cases "validated_fields gen s")
      case Nil
      then show ?thesis by (simp add: fst_validate)
    next
      case (Cons x xs)
      from validate_missing[OF Some Cons] show ?thesis using Some Cons by auto
    qed
  qed
  have b: "validated_fields gen s \<noteq> [] \<longrightarrow>
        (case missing_message gen s of
           None \<Rightarrow> True
         | Some kc \<Rightarrow> fst (validate gen s) = Inl (MissingMessage (fst kc))
                      \<and> elems (snd (validate gen s)) = elems s
                      \<and> groups (snd (validate gen s)) = groups s
                      \<and> timers (snd (validate gen s)) = timers s
                      \<and> submits (snd (validate gen s)) = submits s)"
  proof (cases "missing_message gen s")
    case None
    then show ?thesis by simp
  next
    case (Some kc)
    show ?thesis
    proof (cases "validated_fields gen s")
      case Nil
      then show ?thesis by simp
    next
      case (Cons x xs)
      from validate_missing[OF Some Cons] show ?thesis using Some Cons by auto
    qed
  qed
  show ?thesis using a b by blast
qed

text \<open>On \<open>unused_rule_form\<close>.\<close>

theorem missing_message_raised_witness:
  "validated_fields V0_1_0 unused_rule_form \<noteq> []
   \<and> map fst (customChecks unused_rule_form) = [''foo'']
   \<and> form_message V0_1_0 unused_rule_form ''foo'' = MNull
   \<and> fst (validate V0_1_0 unused_rule_form) = Inl (MissingMessage ''foo'')
   \<and> elems (snd (validate V0_1_0 unused_rule_form)) = elems unused_rule_form
   \<and> groups (snd (validate V0_1_0 unused_rule_form)) = groups unused_rule_form
   \<and> submits (snd (validate V0_1_0 unused_rule_form)) = submits unused_rule_form"
proof -
  have f: "validated_fields V0_1_0 unused_rule_form \<noteq> []"
    by (simp add: unused_rule_form_def scenario_defs model_defs)
  have c: "customChecks unused_rule_form = [(''foo'', regExp_check (matches tel_re))]"
    by (simp add: unused_rule_form_def builder_def setFieldCheck_def obj_set_def array_index_def)
  have fm: "form_message V0_1_0 unused_rule_form ''foo'' = MNull"
    by (simp add: unused_rule_form_def builder_def setFieldCheck_def setAttribute_def model_defs)
  have m: "missing_message V0_1_0 unused_rule_form = Some (''foo'', regExp_check (matches tel_re))"
    by (simp add: missing_message_def c fm)
  from missing_message_raised[of V0_1_0 unused_rule_form] f m c fm show ?thesis by simp
qed

text \<open>
  Claim C6 as stated fails: on \<open>unused_rule_form\<close> the error is thrown although no field
  carries \<^verbatim>\<open>data-validate-foo\<close>.
\<close>

theorem unused_rule_counterexample:
  "fst (validate V0_1_0 unused_rule_form) = Inl (MissingMessage ''foo'')
   \<and> list_all (\<lambda>i. dataConfig_of V0_1_0 (elems unused_rule_form i) ''foo'' = None)
        (dom_fields unused_rule_form)"
  by (simp add: unused_rule_form_def scenario_defs model_defs)

subsection \<open>What validate and setFieldCheck leave unchanged\<close>

lemma setFieldCheck_messages: "messages (snd (setFieldCheck name check s)) = messages s"
  by (cases name; cases check) (simp_all add: setFieldCheck_def)

text \<open>The messages a call of the custom-rule loop writes.\<close>

lemma custom_rules_messages_exact:
  "messages (snd (custom_rules gen f kcs cfg s)) k
     = (if k \<in> fst ` set (visited (\<lambda>kc. truthy (form_message gen s (fst kc))) kcs)
        then form_message gen s k else messages s k)"
proof (induction kcs arbitrary: cfg s)
  case Nil
  show ?case by simp
next
  case (Cons kc kcs)
  obtain k' cc where kc: "kc = (k', cc)" by (cases kc)
  let ?s1 = "s\<lparr>messages := (messages s)(k' := form_message gen s k')\<rparr>"
  let ?cfg1 = "cfg @ [custom_rule gen f (form_message gen s k') (k', cc)]"
  show ?case
  proof (cases "truthy (form_message gen s k')")
    case False
    then show ?thesis by (simp add: kc custom_rules_Cons visited_Cons)
  next
    case True
    have "messages (snd (custom_rules gen f kcs ?cfg1 ?s1)) k
            = (if k \<in> fst ` set (visited (\<lambda>kc. truthy (form_message gen ?s1 (fst kc))) kcs)
               then form_message gen ?s1 k else messages ?s1 k)"
      by (rule Cons.IH)
    then show ?thesis using True by (simp add: kc custom_rules_Cons visited_Cons)
  qed
qed

lemma validate_field_messages_exact:
  "messages (snd (validate_field gen i s)) k
     = (if k \<in> fst ` set (reached gen s) then form_message gen s k else messages s k)"
  unfolding validate_field_eq reached_def
  using custom_rules_messages_exact[of gen "elems s i" "customChecks s" "validationConfig s (elems s i)" s k]
  by (simp add: every_rules_frame split: sum.splits)

lemma reached_same: "same_inputs s s' \<Longrightarrow> reached gen s' = reached gen s"
  unfolding reached_def by (simp add: form_message_same) (simp add: same_inputs_def)

lemma every_fields_messages_exact:
  "messages (snd (every fs (validate_field gen) s)) k
     = (if fs \<noteq> [] \<and> k \<in> fst ` set (reached gen s) then form_message gen s k else messages s k)"
proof (induction fs arbitrary: s)
  case Nil
  show ?case by simp
next
  case (Cons x xs)
  let ?s1 = "snd (validate_field gen x s)"
  have si: "same_inputs s ?s1" using validate_field_ui[of x s gen] by (simp add: ui_step_def)
  have r: "reached gen ?s1 = reached gen s" by (rule reached_same[OF si])
  have f: "form_message gen ?s1 k = form_message gen s k" by (rule form_message_same[OF si])
  have m: "messages ?s1 k
     = (if k \<in> fst ` set (reached gen s) then form_message gen s k else messages s k)"
    by (rule validate_field_messages_exact)
  have ih: "messages (snd (every xs (validate_field gen) ?s1)) k
     = (if xs \<noteq> [] \<and> k \<in> fst ` set (reached gen s) then form_message gen s k else messages ?s1 k)"
    using Cons.IH[of ?s1] r f by simp
  show ?case
  proof (cases "passes gen s x")
    case True
    then show ?thesis using ih m by (simp add: every_fields_pass)
  next
    case False
    then show ?thesis using m by (simp add: every_fields_stop)
  qed
qed

lemma visited_all: "(\<forall>x\<in>set xs. p x) \<Longrightarrow> visited p xs = xs"
  by (induction xs) (simp_all add: visited_Cons)

lemma reached_facts:
  "set (reached gen s) \<subseteq> set (customChecks s)"
  "missing_message gen s = None \<Longrightarrow> reached gen s = customChecks s"
proof -
  show "set (reached gen s) \<subseteq> set (customChecks s)"
    unfolding reached_def by (rule visited_subset)
  assume "missing_message gen s = None"
  then have "\<forall>kc\<in>set (customChecks s). truthy (form_message gen s (fst kc))"
    by (auto simp: missing_message_def find_None_iff)
  then show "reached gen s = customChecks s"
    unfolding reached_def by (rule visited_all)
qed

text \<open>
  Claim C4, as amended. \<^verbatim>\<open>validate()\<close> leaves the registry unchanged and
  \<^verbatim>\<open>setFieldCheck\<close> leaves the messages unchanged. \<^verbatim>\<open>validate()\<close> writes messages: when it
  visits at least one field, the slot of every registered rule it reaches (\<open>reached\<close>:
  the rules in registry order up to and including the first one without a usable
  message; all of them when every rule has its message) holds afterwards the message
  the form declares for that name, and every other slot keeps its value. When there is
  no field to visit, no slot changes.
\<close>

theorem validate_registry_frame:
  "customChecks (snd (validate gen s)) = customChecks s
   \<and> messages (snd (setFieldCheck name check s)) = messages s
   \<and> messages (snd (validate gen s)) k
       = (if validated_fields gen s \<noteq> [] \<and> k \<in> fst ` set (reached gen s)
          then form_message gen s k else messages s k)
   \<and> set (reached gen s) \<subseteq> set (customChecks s)
   \<and> (missing_message gen s = None \<longrightarrow> reached gen s = customChecks s)"
proof -
  have si: "same_inputs s (query_fields gen s)"
    using query_fields_ui[of s gen] by (simp add: ui_step_def)
  have 3: "messages (snd (validate gen s)) k
       = (if validated_fields gen s \<noteq> [] \<and> k \<in> fst ` set (reached gen s)
          then form_message gen s k else messages s k)"
    using every_fields_messages_exact[of "validated_fields gen s" gen "query_fields gen s" k]
      reached_same[OF si, of gen] form_message_same[OF si, of gen k]
    by (simp add: snd_validate Let_def)
  show ?thesis using 3 reached_facts[of gen s]
    by (simp add: validate_installed setFieldCheck_messages)
qed

text \<open>
  On \<open>email_foo_form\<close>: the slot \<^verbatim>\<open>foo\<close> receives the message of the form, the slot
  \<^verbatim>\<open>bar\<close>, which is no registered rule, keeps its value.
\<close>

theorem validate_registry_frame_witness:
  "customChecks (snd (validate V0_1_0 (email_foo_form V0_1_0))) = customChecks (email_foo_form V0_1_0)
   \<and> missing_message V0_1_0 (email_foo_form V0_1_0) = None
   \<and> map fst (reached V0_1_0 (email_foo_form V0_1_0)) = [''foo'']
   \<and> messages (snd (validate V0_1_0 (email_foo_form V0_1_0))) ''foo''
       = form_message V0_1_0 (email_foo_form V0_1_0) ''foo''
   \<and> messages (snd (validate V0_1_0 (email_foo_form V0_1_0))) ''bar'' = MUndefined"
proof -
  have m: "missing_message V0_1_0 (email_foo_form V0_1_0) = None"
    by (simp add: scenario_defs model_defs)
  have c: "map fst (customChecks (email_foo_form V0_1_0)) = [''foo'']"
    by (simp add: scenario_defs)
  have v: "validated_fields V0_1_0 (email_foo_form V0_1_0) \<noteq> []"
    by (simp add: scenario_defs model_defs)
  have b: "messages (email_foo_form V0_1_0) ''bar'' = MUndefined"
    by (simp add: scenario_defs)
  have r: "reached V0_1_0 (email_foo_form V0_1_0) = customChecks (email_foo_form V0_1_0)"
    using validate_registry_frame[of V0_1_0 "email_foo_form V0_1_0"] m by blast
  have f: "fst ` set (customChecks (email_foo_form V0_1_0)) = {''foo''}"
    using c by (metis list.set_map list.simps(15) set_empty2 empty_set)
  have w1: "messages (snd (validate V0_1_0 (email_foo_form V0_1_0))) ''foo''
       = form_message V0_1_0 (email_foo_form V0_1_0) ''foo''"
    using validate_registry_frame[of V0_1_0 "email_foo_form V0_1_0" _ _ "''foo''"] v r f by simp
  have w2: "messages (snd (validate V0_1_0 (email_foo_form V0_1_0))) ''bar'' = MUndefined"
    using validate_registry_frame[of V0_1_0 "email_foo_form V0_1_0" _ _ "''bar''"] v r f b by simp
  have w0: "customChecks (snd (validate V0_1_0 (email_foo_form V0_1_0))) = customChecks (email_foo_form V0_1_0)"
    using validate_registry_frame[of V0_1_0 "email_foo_form V0_1_0"] by blast
  show ?thesis using w0 m r c w1 w2 by simp
qed

text \<open>
  Claim C4 as stated fails: on \<open>email_foo_form\<close> the call of \<^verbatim>\<open>validate()\<close> changes the
  slot \<^verbatim>\<open>foo\<close> of the messages.
\<close>

theorem validate_writes_messages_counterexample:
  "messages (email_foo_form V0_1_0) ''foo'' = MUndefined
   \<and> messages (snd (validate V0_1_0 (email_foo_form V0_1_0))) ''foo'' = MStr ''Foo''"
  by (simp add: scenario_defs model_defs)

subsection \<open>The field list and the generations\<close>

lemma custom_rule_V0_1_1: "custom_rule V0_1_1 f m kc = custom_rule V0_1_0 f m kc"
  by (simp add: custom_rule_def dataConfig_of_def)

lemma form_message_V0_1_1: "form_message V0_1_1 s k = form_message V0_1_0 s k"
  by (simp add: form_message_def)

lemma custom_rules_V0_1_1: "custom_rules V0_1_1 f kcs cfg s = custom_rules V0_1_0 f kcs cfg s"
proof (induction kcs arbitrary: cfg s)
  case Nil
  show ?case by simp
next
  case (Cons kc kcs)
  obtain k cc where kc: "kc = (k, cc)" by (cases kc)
  show ?case unfolding kc custom_rules_Cons
    by (simp add: Cons.IH custom_rule_V0_1_1 form_message_V0_1_1)
qed

lemma error_event_V0_1_1: "error_event V0_1_1 = error_event V0_1_0"
  by (simp add: error_event_def)

lemma rule_step_V0_1_1: "rule_step V0_1_1 i = rule_step V0_1_0 i"
  by (intro ext) (simp only: rule_step_def error_event_V0_1_1)

lemma validate_field_V0_1_1: "validate_field V0_1_1 = validate_field V0_1_0"
  by (intro ext) (simp only: validate_field_def custom_rules_V0_1_1 rule_step_V0_1_1)

lemma validate_formFields:
  "formFields (snd (validate gen s)) = formFields (query_fields gen s)"
  by (simp add: snd_validate Let_def every_fields_formFields)

text \<open>
  Claim C5, as amended. In v1.0.0 and v0.1.0 the result of \<^verbatim>\<open>validate()\<close> does not depend
  on the stored field list: the list is queried from the form at each call and stored.
  v0.1.1 runs the same callback on each field as v0.1.0, and the two calls of
  \<^verbatim>\<open>validate()\<close> agree whenever the list v0.1.1 holds is the current list of the form.
\<close>

theorem field_list_recomputed:
  "(gen \<noteq> V0_1_1 \<longrightarrow>
      validate gen (s\<lparr>formFields := xs\<rparr>) = validate gen s
      \<and> formFields (snd (validate gen s)) = dom_fields s)
   \<and> validate_field V0_1_1 = validate_field V0_1_0
   \<and> (formFields s = dom_fields s \<longrightarrow> validate V0_1_1 s = validate V0_1_0 s)"
proof -
  have a1: "gen \<noteq> V0_1_1 \<longrightarrow> validate gen (s\<lparr>formFields := xs\<rparr>) = validate gen s"
    by (cases gen) (simp_all add: validate_def)
  have b1: "gen \<noteq> V0_1_1 \<longrightarrow> formFields (snd (validate gen s)) = dom_fields s"
    by (cases gen) (simp_all add: validate_formFields query_fields_def)
  have c1: "formFields s = dom_fields s \<longrightarrow> validate V0_1_1 s = validate V0_1_0 s"
  proof
    assume a: "formFields s = dom_fields s"
    have "s\<lparr>formFields := dom_fields s\<rparr> = s" using a by simp
    then have "query_fields V0_1_0 s = query_fields V0_1_1 s"
      by (simp add: query_fields_def)
    then show "validate V0_1_1 s = validate V0_1_0 s"
      unfolding validate_every by (simp add: validate_field_V0_1_1 validated_fields_def a)
  qed
  show ?thesis using a1 b1 c1 validate_field_V0_1_1 by blast
qed

text \<open>On \<open>late_field_form\<close>, where the stored list is empty and the form has one field.\<close>

theorem field_list_recomputed_witness:
  "formFields (late_field_form V0_1_0) = [] \<and> dom_fields (late_field_form V0_1_0) = [0]
   \<and> formFields (snd (validate V0_1_0 (late_field_form V0_1_0))) = [0]
   \<and> validate V0_1_1 ((late_field_form V0_1_1)\<lparr>formFields := [0]\<rparr>)
       = validate V0_1_0 ((late_field_form V0_1_1)\<lparr>formFields := [0]\<rparr>)"
proof -
  have d: "dom_fields (late_field_form V0_1_0) = [0]" "formFields (late_field_form V0_1_0) = []"
    by (simp_all add: late_field_form_def builder_def bare_form_def)
  have e: "formFields ((late_field_form V0_1_1)\<lparr>formFields := [0]\<rparr>)
             = dom_fields ((late_field_form V0_1_1)\<lparr>formFields := [0]\<rparr>)"
    by (simp add: late_field_form_def)
  have w1: "formFields (snd (validate V0_1_0 (late_field_form V0_1_0)))
              = dom_fields (late_field_form V0_1_0)"
    using field_list_recomputed[where gen=V0_1_0 and s="late_field_form V0_1_0"] by blast
  have w3: "validate V0_1_1 ((late_field_form V0_1_1)\<lparr>formFields := [0]\<rparr>)
       = validate V0_1_0 ((late_field_form V0_1_1)\<lparr>formFields := [0]\<rparr>)"
    using field_list_recomputed[where gen=V0_1_1
        and s="(late_field_form V0_1_1)\<lparr>formFields := [0]\<rparr>"] e by blast
  show ?thesis unfolding w1 using w3 d by simp
qed

text \<open>
  Claim C5 as stated fails: on \<open>late_field_form\<close> the form holds a required, empty field;
  v0.1.1 iterates the empty list its \<^verbatim>\<open>builder\<close> captured and submits the form, v1.0.0
  and v0.1.0 find the field and do not.
\<close>

theorem stale_field_list_counterexample:
  "dom_fields (late_field_form V0_1_1) = [0]
   \<and> submits (late_field_form V0_1_1) = 0
   \<and> submits (snd (validate V0_1_1 (late_field_form V0_1_1))) = 1
   \<and> submits (snd (validate V0_1_0 (late_field_form V0_1_0))) = 0
   \<and> submits (snd (validate V1_0_0 (late_field_form V1_0_0))) = 0"
  by (simp add: late_field_form_def scenario_defs model_defs forEachNode.simps validate_todo_def)

end
